theory Spec2Isabelle
  imports Complex_Main "HOL-Library.Word" "HOL-Library.Log_Nat"
begin

unbundle bit_operations_syntax

section \<open>Sonic Pixelator: the encoder service\<close>

text \<open>
  A shallow embedding of \<^verbatim>\<open>src/services/encoder.service.ts\<close>. Typed-array elements
  (\<^verbatim>\<open>Uint8Array\<close>, \<^verbatim>\<open>Uint8ClampedArray\<close>) are bytes, JavaScript numbers that only
  ever hold integers are \<^typ>\<open>int\<close> or \<^typ>\<open>nat\<close>, and every \<^verbatim>\<open>throw\<close> is the left
  summand of a result. Strings (\<^verbatim>\<open>file.type\<close>, \<^verbatim>\<open>file.name\<close>) are sequences of code
  points; \<^verbatim>\<open>TextEncoder\<close> and \<^verbatim>\<open>TextDecoder\<close>, which the framer and the parser call, are
  modelled after the Encoding Standard. The canvas, the PNG encoder and the gzip stream are
  collaborators of the service; they appear as parameters.
\<close>

subsection \<open>Data\<close>

type_synonym byte = "8 word"

text \<open>
  The kinds of failure. The service throws plain \<^verbatim>\<open>Error\<close> objects; the constructors
  name them by message: \<^verbatim>\<open>This image does not contain valid Sonic Pixelator data\<close>
  (UnrecognizedFormat), \<^verbatim>\<open>Invalid BPC detected in header\<close> and
  \<^verbatim>\<open>Header payload length exceeds image capacity\<close> (InvalidStegoHeader),
  \<^verbatim>\<open>Invalid Inner Magic\<close> (UnrecognizedPayloadMagic), the three
  \<^verbatim>\<open>Header Read Error\<close> messages (TruncatedHeader),
  \<^verbatim>\<open>Failed to decompress audio data\<close> (DecompressionFailed). RangeError is the
  platform's own exception, raised by \<^verbatim>\<open>DataView.getUint32\<close> on a view shorter than
  four bytes and by \<^verbatim>\<open>new Uint32Array(count)\<close> on a negative count.
\<close>

datatype error =
    UnrecognizedFormat
  | InvalidStegoHeader
  | UnrecognizedPayloadMagic
  | TruncatedHeader
  | DecompressionFailed
  | RangeError

text \<open>
  A string is the sequence of its code points: a surrogate pair of the UTF-16 string is one
  code point above \<open>0xFFFF\<close>, an unpaired surrogate is a code point in
  \<open>[0xD800, 0xDFFF]\<close>. Every string is such a list of code points in \<open>[0, 0x10FFFF]\<close>
  in which no high surrogate is directly followed by a low one.
\<close>

record File =
  fileBytes :: "byte list"
  fileType_in :: "int list"
  fileName_in :: "int list"

record DecodedAudio =
  blob :: "byte list"
  fileName :: "int list"
  fileType :: "int list"

definition MAGIC_SNIC :: "byte list" where
  "MAGIC_SNIC = [0x53, 0x4E, 0x49, 0x43]"

definition MAGIC_SNIZ :: "byte list" where
  "MAGIC_SNIZ = [0x53, 0x4E, 0x49, 0x5A]"

definition MAGIC_SNIH :: "byte list" where
  "MAGIC_SNIH = [0x53, 0x4E, 0x49, 0x48]"

definition RESERVED_HEADER_PIXELS :: nat where
  "RESERVED_HEADER_PIXELS = 32"

subsection \<open>Typed arrays\<close>

text \<open>
  Reading a typed array past its end gives \<^verbatim>\<open>undefined\<close>. Every such read in the
  service is either masked (\<^verbatim>\<open>undefined & 1\<close> is 0) or stored into a \<^verbatim>\<open>Uint8Array\<close>
  (where it becomes 0), so the read is modelled with the default 0.
\<close>

definition px :: "byte list \<Rightarrow> nat \<Rightarrow> byte" where
  "px pixels i = (if i < length pixels then pixels ! i else 0)"

text \<open>\<^verbatim>\<open>TypedArray.prototype.slice(a, b)\<close> for \<open>0 \<le> a\<close>: both ends are clamped to the length.\<close>

definition slice :: "'a list \<Rightarrow> nat \<Rightarrow> nat \<Rightarrow> 'a list" where
  "slice xs a b = take (b - a) (drop a xs)"

text \<open>A store into a \<^verbatim>\<open>Uint8ClampedArray\<close> clamps an integer to \<open>[0, 255]\<close>.\<close>

definition toUint8Clamped :: "int \<Rightarrow> byte" where
  "toUint8Clamped v = word_of_int (max 0 (min 255 v))"

text \<open>\<^verbatim>\<open>DataView.setUint32(0, n, true)\<close> and \<^verbatim>\<open>getUint32(0, true)\<close>: little-endian.\<close>

definition setUint32 :: "nat \<Rightarrow> byte list" where
  "setUint32 n = map (\<lambda>k. word_of_int (int n mod 4294967296 div 256 ^ k)) [0..<4]"

definition getUint32 :: "byte list \<Rightarrow> nat" where
  "getUint32 bs =
     nat (uint (bs ! 0) + 256 * uint (bs ! 1) + 65536 * uint (bs ! 2) + 16777216 * uint (bs ! 3))"

text \<open>
  The magic comparison loops: \<^verbatim>\<open>for (i = 0; i < 4; i++) if (check[i] !== MAGIC[i]) flag = false\<close>.
  An index past the end of \<open>check\<close> reads \<^verbatim>\<open>undefined\<close>, which differs from every number.
\<close>

definition magicMatches :: "byte list \<Rightarrow> byte list \<Rightarrow> bool" where
  "magicMatches check magic = list_all (\<lambda>i. i < length check \<and> check ! i = magic ! i) [0..<4]"

subsection \<open>Strings: TextEncoder and TextDecoder\<close>

text \<open>
  \<^verbatim>\<open>new TextEncoder().encode(s)\<close> converts the string to scalar values (an unpaired
  surrogate becomes U+FFFD) and runs the UTF-8 encoder of the Encoding Standard on each
  code point: a code point up to \<open>0x7F\<close> is one byte; otherwise the lead byte
  \<^verbatim>\<open>(codePoint >> (6 * count)) + offset\<close> is followed by \<^verbatim>\<open>count\<close> bytes
  \<^verbatim>\<open>0x80 | ((codePoint >> (6 * (count - 1))) & 0x3F)\<close>, with \<^verbatim>\<open>count\<close> counting down.
\<close>

definition isSurrogate :: "int \<Rightarrow> bool" where
  "isSurrogate c = (0xD800 \<le> c \<and> c \<le> 0xDFFF)"

definition utf8Encoder :: "int \<Rightarrow> byte list" where
  "utf8Encoder codePoint =
     (if codePoint \<le> 0x7F then [word_of_int codePoint]
      else let (count, offset) =
                 (if codePoint \<le> 0x7FF then (1, 0xC0)
                  else if codePoint \<le> 0xFFFF then (2, 0xE0)
                  else (3 :: nat, 0xF0 :: int))
           in word_of_int (drop_bit (6 * count) codePoint + offset)
              # map (\<lambda>k. word_of_int (0x80 OR (drop_bit (6 * k) codePoint AND 0x3F))) (rev [0..<count]))"

definition TextEncoder_encode :: "int list \<Rightarrow> byte list" where
  "TextEncoder_encode s =
     concat (map (\<lambda>c. utf8Encoder (if isSurrogate c then 0xFFFD else c)) s)"

text \<open>
  \<^verbatim>\<open>new TextDecoder().decode(bytes)\<close> runs the UTF-8 decoder of the Encoding Standard
  with the default error mode: a malformed sequence becomes U+FFFD, and a byte outside
  the expected range ends the sequence and is read again. The state of the decoder is
  \<open>(codePoint, bytesSeen, bytesNeeded, lowerBoundary, upperBoundary)\<close>. With the default
  \<^verbatim>\<open>ignoreBOM = false\<close> the decoder drops a U+FEFF that comes first in the output.
\<close>

fun utf8Decoder :: "int \<times> nat \<times> nat \<times> int \<times> int \<Rightarrow> byte list \<Rightarrow> int list" where
  "utf8Decoder (codePoint, bytesSeen, bytesNeeded, lowerBoundary, upperBoundary) [] =
     (if bytesNeeded \<noteq> 0 then [0xFFFD] else [])"
| "utf8Decoder (codePoint, bytesSeen, bytesNeeded, lowerBoundary, upperBoundary) (b # bs) =
     (let byte = uint b in
      if bytesNeeded = 0 then
        (if byte \<le> 0x7F then byte # utf8Decoder (0, 0, 0, 0x80, 0xBF) bs
         else if 0xC2 \<le> byte \<and> byte \<le> 0xDF
           then utf8Decoder (byte AND 0x1F, 0, 1, 0x80, 0xBF) bs
         else if 0xE0 \<le> byte \<and> byte \<le> 0xEF
           then utf8Decoder (byte AND 0xF, 0, 2,
                  if byte = 0xE0 then 0xA0 else 0x80, if byte = 0xED then 0x9F else 0xBF) bs
         else if 0xF0 \<le> byte \<and> byte \<le> 0xF4
           then utf8Decoder (byte AND 0x7, 0, 3,
                  if byte = 0xF0 then 0x90 else 0x80, if byte = 0xF4 then 0x8F else 0xBF) bs
         else 0xFFFD # utf8Decoder (0, 0, 0, 0x80, 0xBF) bs)
      else if \<not> (lowerBoundary \<le> byte \<and> byte \<le> upperBoundary)
        then 0xFFFD # utf8Decoder (0, 0, 0, 0x80, 0xBF) (b # bs)
      else let codePoint = push_bit 6 codePoint OR (byte AND 0x3F);
               bytesSeen = bytesSeen + 1
           in if bytesSeen \<noteq> bytesNeeded
              then utf8Decoder (codePoint, bytesSeen, bytesNeeded, 0x80, 0xBF) bs
              else codePoint # utf8Decoder (0, 0, 0, 0x80, 0xBF) bs)"

declare utf8Decoder.simps [simp del]

definition TextDecoder_decode :: "byte list \<Rightarrow> int list" where
  "TextDecoder_decode bytes =
     (case utf8Decoder (0, 0, 0, 0x80, 0xBF) bytes of
        [] \<Rightarrow> []
      | item # output \<Rightarrow> if item = 0xFEFF then output else item # output)"

text \<open>
  Strings of Unicode scalar values (no unpaired surrogate), and strings that begin with
  the byte order mark U+FEFF.
\<close>

definition scalarValues :: "int list \<Rightarrow> bool" where
  "scalarValues s = list_all (\<lambda>c. 0 \<le> c \<and> c \<le> 0x10FFFF \<and> \<not> isSurrogate c) s"

definition startsWithBOM :: "int list \<Rightarrow> bool" where
  "startsWithBOM s = (case s of [] \<Rightarrow> False | c # cs \<Rightarrow> c = 0xFEFF)"

subsection \<open>Payload framing: createPayload and parsePayload\<close>

definition createPayload :: "File \<Rightarrow> byte list" where
  "createPayload file =
     (let finalData = fileBytes file;
          mimeBytes = TextEncoder_encode (fileType_in file);
          nameBytes = TextEncoder_encode (fileName_in file)
      in MAGIC_SNIC
         @ setUint32 (length finalData)
         @ [of_nat (length mimeBytes)] @ mimeBytes
         @ [of_nat (length nameBytes)] @ nameBytes
         @ finalData)"

text \<open>
  \<open>decompress\<close> stands for the gzip \<^verbatim>\<open>DecompressionStream\<close>; \<open>None\<close> is its failure.
\<close>

definition parsePayload :: "(byte list \<Rightarrow> byte list option) \<Rightarrow> byte list \<Rightarrow> error + DecodedAudio" where
  "parsePayload decompress buffer =
     (let magicCheck = slice buffer 0 4;
          isSnic = magicMatches magicCheck MAGIC_SNIC;
          isSniz = magicMatches magicCheck MAGIC_SNIZ
      in if \<not> isSnic \<and> \<not> isSniz then Inl UnrecognizedPayloadMagic
      else let isCompressed = isSniz;
               ptr = 4;
               sizeView = slice buffer ptr (ptr + 4)
      in if length sizeView < 4 then Inl RangeError
      else let dataSize = getUint32 sizeView;
               ptr = ptr + 4
      in if ptr + 1 > length buffer then Inl TruncatedHeader
      else let mimeLen = unat (buffer ! ptr);
               ptr = ptr + 1
      in if ptr + mimeLen > length buffer then Inl TruncatedHeader
      else let mimeType = TextDecoder_decode (slice buffer ptr (ptr + mimeLen));
               ptr = ptr + mimeLen
      in if ptr + 1 > length buffer then Inl TruncatedHeader
      else let nameLen = unat (buffer ! ptr);
               ptr = ptr + 1
      in if ptr + nameLen > length buffer then Inl TruncatedHeader
      else let fileName = TextDecoder_decode (slice buffer ptr (ptr + nameLen));
               ptr = ptr + nameLen;
               fileData = slice buffer ptr (min (ptr + dataSize) (length buffer))
      in if isCompressed
         then (case decompress fileData of
                 None \<Rightarrow> Inl DecompressionFailed
               | Some d \<Rightarrow> Inr \<lparr>blob = d, fileName = fileName, fileType = mimeType\<rparr>)
         else Inr \<lparr>blob = fileData, fileName = fileName, fileType = mimeType\<rparr>)"

subsection \<open>Stego embedding: applyOPAP\<close>

text \<open>
  \<^verbatim>\<open>1 << bpc\<close> and \<^verbatim>\<open>1 << (bpc - 1)\<close> on the densities the service uses
  (\<open>1 \<le> bpc \<le> 8\<close>), where the 32-bit shift of JavaScript is the mathematical one.
\<close>

definition applyOPAP :: "int \<Rightarrow> int \<Rightarrow> nat \<Rightarrow> int" where
  "applyOPAP original modified bpc =
     (let delta = modified - original;
          interval = push_bit bpc 1;
          limit = push_bit (bpc - 1) 1
      in if delta > limit \<and> modified - interval \<ge> 0 then modified - interval
         else if delta < - limit \<and> modified + interval \<le> 255 then modified + interval
         else modified)"

text \<open>The basic substitution \<^verbatim>\<open>(originalVal & ~mask) | bitsToEmbed\<close> with \<^verbatim>\<open>mask = (1 << bpc) - 1\<close>.\<close>

definition substituteBits :: "int \<Rightarrow> nat \<Rightarrow> int \<Rightarrow> int" where
  "substituteBits originalVal bpc bitsToEmbed =
     (let mask = push_bit bpc 1 - 1 in (originalVal AND NOT mask) OR bitsToEmbed)"

subsection \<open>Double-precision arithmetic\<close>

text \<open>
  JavaScript numbers are IEEE-754 binary64 values. Sums, differences and products of
  integers below \<open>2 ^ 53\<close> are exact and are modelled by the integer operations. A division,
  a square root or a product with a fraction is the exact real result rounded to 53
  significant bits, ties to even: that is \<open>fl\<close>. (The exponent range plays no part: all the
  values the service computes are far from overflow and underflow.)
\<close>

definition rne :: "real \<Rightarrow> int" where
  "rne y = (let f = \<lfloor>y\<rfloor>; d = y - of_int f
            in if d < 1 / 2 then f else if d > 1 / 2 then f + 1
               else if even f then f else f + 1)"

definition fl :: "real \<Rightarrow> real" where
  "fl x = (if x = 0 then 0
           else let e = \<lfloor>log 2 \<bar>x\<bar>\<rfloor> - 52
                in of_int (rne (x / 2 powr (of_int e))) * 2 powr (of_int e))"

text \<open>
  The same rounding on an integer, computed with integer operations only: an integer of
  more than 53 bits keeps its leading 53 bits, rounded to nearest, ties to even.
\<close>

definition round53 :: "int \<Rightarrow> int" where
  "round53 x =
     (if bitlen \<bar>x\<bar> \<le> 53 then x
      else let e = nat (bitlen \<bar>x\<bar> - 53);
               q = \<bar>x\<bar> div 2 ^ e;
               r = \<bar>x\<bar> mod 2 ^ e;
               h = 2 ^ (e - 1);
               m = (if r < h then q else if r > h then q + 1
                    else if even q then q else q + 1)
           in sgn x * (m * 2 ^ e))"

subsection \<open>The noise codec: encodeFileToImage and decodeStandardImage\<close>

text \<open>
  \<^verbatim>\<open>bufferIdx < fullBuffer.length ? fullBuffer[bufferIdx++] : 0\<close>, then the loop over the
  pixels, each taking three bytes and an opaque alpha.
\<close>

definition nextByte :: "byte list \<Rightarrow> nat \<Rightarrow> byte \<times> nat" where
  "nextByte fullBuffer bufferIdx =
     (if bufferIdx < length fullBuffer then (fullBuffer ! bufferIdx, bufferIdx + 1)
      else (0, bufferIdx))"

fun noisePixels :: "nat \<Rightarrow> byte list \<Rightarrow> nat \<Rightarrow> byte list" where
  "noisePixels 0 fullBuffer bufferIdx = []"
| "noisePixels (Suc n) fullBuffer bufferIdx =
     (let (r, bufferIdx) = nextByte fullBuffer bufferIdx;
          (g, bufferIdx) = nextByte fullBuffer bufferIdx;
          (b, bufferIdx) = nextByte fullBuffer bufferIdx
      in [r, g, b, 255] @ noisePixels n fullBuffer bufferIdx)"

record Image =
  imgWidth :: nat
  imgHeight :: nat
  imgData :: "byte list"

definition noiseDimensions :: "nat \<Rightarrow> nat \<times> nat \<times> nat" where
  "noiseDimensions len =
     (let totalPixels = nat \<lceil>fl (real len / 3)\<rceil>;
          width = nat \<lceil>fl (sqrt (real totalPixels))\<rceil>;
          height = nat \<lceil>fl (real totalPixels / real width)\<rceil>
      in (totalPixels, width, height))"

definition encodeFileToImage :: "File \<Rightarrow> Image" where
  "encodeFileToImage file =
     (let fullBuffer = createPayload file;
          (totalPixels, width, height) = noiseDimensions (length fullBuffer);
          finalImageData = noisePixels (width * height) fullBuffer 0
      in \<lparr>imgWidth = width, imgHeight = height, imgData = finalImageData\<rparr>)"

definition decodeStandardImage ::
    "(byte list \<Rightarrow> byte list option) \<Rightarrow> byte list \<Rightarrow> nat \<Rightarrow> nat \<Rightarrow> error + DecodedAudio" where
  "decodeStandardImage decompress pixels width height =
     (let extractedBuffer =
            concat (map (\<lambda>i. let idx = i * 4 in [px pixels idx, px pixels (idx + 1), px pixels (idx + 2)])
                        [0..<width * height])
      in parsePayload decompress extractedBuffer)"

subsection \<open>The pixel shuffle: getShuffledIndices\<close>

text \<open>
  The generator. \<open>seed\<close> is a number that grows by \<^verbatim>\<open>0x6D2B79F5\<close> at each call (the
  sum is a double, hence \<open>round53\<close>); the bit operations and \<^verbatim>\<open>Math.imul\<close> work on its
  low 32 bits. The result of \<^verbatim>\<open>random()\<close> is the returned 32-bit value divided by
  \<open>2 ^ 32\<close>, which is exact.
\<close>

definition random :: "int \<Rightarrow> 32 word \<times> int" where
  "random seed =
     (let seed = round53 (seed + 0x6D2B79F5);
          t = (word_of_int seed :: 32 word);
          t = (t XOR drop_bit 15 t) * (t OR 1);
          t = t XOR (t + (t XOR drop_bit 7 t) * (t OR 61))
      in (t XOR drop_bit 14 t, seed))"

text \<open>
  \<^verbatim>\<open>Math.floor(random() * (i + 1))\<close>: the product of \<open>r / 2 ^ 32\<close> and \<open>i + 1\<close> is the
  rounding of \<open>r * (i + 1)\<close>, scaled by \<open>2 ^ 32\<close>.
\<close>

definition randomIndex :: "32 word \<Rightarrow> nat \<Rightarrow> nat" where
  "randomIndex r i = nat (round53 (uint r * int (i + 1)) div 4294967296)"

fun shuffleLoop :: "nat \<Rightarrow> int \<Rightarrow> nat list \<Rightarrow> nat list" where
  "shuffleLoop 0 seed indices = indices"
| "shuffleLoop (Suc i') seed indices =
     (let i = Suc i';
          (r, seed) = random seed;
          j = randomIndex r i;
          temp = indices ! i;
          indices = indices[i := indices ! j];
          indices = indices[j := temp]
      in shuffleLoop i' seed indices)"

text \<open>
  \<open>indices\<close> is a \<^verbatim>\<open>Uint32Array\<close>: its elements are stored modulo \<open>2 ^ 32\<close>, and a
  negative \<open>count\<close> makes the constructor throw.
\<close>

definition getShuffledIndices :: "nat \<Rightarrow> nat \<Rightarrow> error + nat list" where
  "getShuffledIndices totalPixels reservedPixels =
     (if totalPixels < reservedPixels then Inl RangeError
      else let count = totalPixels - reservedPixels;
               indices = map (\<lambda>i. nat (int (reservedPixels + i) mod 4294967296)) [0..<count];
               seed = sint ((1337 :: 32 word) XOR 0xDEADBEEF)
           in Inr (shuffleLoop (count - 1) seed indices))"

subsection \<open>The linear header stream\<close>

text \<open>
  One bit per colour channel, cycling R, G, B and skipping alpha. The reader is the closure
  \<^verbatim>\<open>readByte\<close> of decodeStegoImage; the magic loop of decodeImageToFile is the same code
  inlined. The state is \<open>(pixelIdx, channelIdx)\<close>.
\<close>

fun readBits :: "nat \<Rightarrow> nat \<Rightarrow> byte list \<Rightarrow> int \<times> nat \<times> nat \<Rightarrow> int \<times> nat \<times> nat" where
  "readBits 0 b pixels s = s"
| "readBits (Suc n) b pixels (val, pixelIdx, channelIdx) =
     (let pIdx = pixelIdx * 4 + channelIdx;
          bit = uint (px pixels pIdx) AND 1;
          val = val OR push_bit b bit;
          channelIdx = channelIdx + 1
      in if channelIdx > 2 then readBits n (b + 1) pixels (val, pixelIdx + 1, 0)
         else readBits n (b + 1) pixels (val, pixelIdx, channelIdx))"

definition readByte :: "byte list \<Rightarrow> nat \<times> nat \<Rightarrow> int \<times> nat \<times> nat" where
  "readByte pixels s = readBits 8 0 pixels (0, s)"

fun readBytes :: "nat \<Rightarrow> byte list \<Rightarrow> nat \<times> nat \<Rightarrow> byte list \<times> nat \<times> nat" where
  "readBytes 0 pixels s = ([], s)"
| "readBytes (Suc n) pixels s =
     (let (val, s) = readByte pixels s;
          (rest, s) = readBytes n pixels s
      in (word_of_int val # rest, s))"

text \<open>The writer of hideDataInImage: \<^verbatim>\<open>(byte >> b) & 1\<close> for each header field.\<close>

definition bitsOf :: "nat \<Rightarrow> int \<Rightarrow> int list" where
  "bitsOf n v = map (\<lambda>b. drop_bit b v AND 1) [0..<n]"

definition headerBits :: "nat \<Rightarrow> nat \<Rightarrow> int list" where
  "headerBits len finalBPC =
     concat (map (\<lambda>byte. bitsOf 8 (uint byte)) MAGIC_SNIH) @ bitsOf 32 (int len) @ bitsOf 8 (int finalBPC)"

fun writeHeaderBits :: "int list \<Rightarrow> nat \<Rightarrow> nat \<Rightarrow> byte list \<Rightarrow> byte list" where
  "writeHeaderBits [] channelIdx pixelIdx pixels = pixels"
| "writeHeaderBits (h # hs) channelIdx pixelIdx pixels =
     (let pIdx = pixelIdx * 4 + channelIdx;
          pixels = pixels[pIdx := toUint8Clamped ((uint (px pixels pIdx) AND NOT 1) OR h)];
          channelIdx = channelIdx + 1
      in if channelIdx > 2 then writeHeaderBits hs 0 (pixelIdx + 1) pixels
         else writeHeaderBits hs channelIdx pixelIdx pixels)"

subsection \<open>The stego extractor\<close>

text \<open>
  The state of the extraction loop is \<open>(payload, payloadByteIdx, payloadBitIdx, currentByte)\<close>.
  \<open>scatterBits\<close> is the loop over the \<open>bpc\<close> bits of one channel, \<open>extractChannels\<close> the loop
  over the channels of one pixel, \<open>extractLoop\<close> the \<^verbatim>\<open>while\<close> over the shuffled indices;
  each \<^verbatim>\<open>break\<close> is the branch that returns the state.
\<close>

fun scatterBits :: "nat \<Rightarrow> nat \<Rightarrow> int \<Rightarrow> nat \<Rightarrow> byte list \<times> nat \<times> nat \<times> int
    \<Rightarrow> byte list \<times> nat \<times> nat \<times> int" where
  "scatterBits 0 b bits payloadLen s = s"
| "scatterBits (Suc n) b bits payloadLen (payload, payloadByteIdx, payloadBitIdx, currentByte) =
     (let bit = drop_bit b bits AND 1;
          currentByte = currentByte OR push_bit payloadBitIdx bit;
          payloadBitIdx = payloadBitIdx + 1
      in if payloadBitIdx = 8
         then let payload = payload[payloadByteIdx := word_of_int currentByte];
                  payloadByteIdx = payloadByteIdx + 1
              in if payloadByteIdx \<ge> payloadLen then (payload, payloadByteIdx, 0, 0)
                 else scatterBits n (b + 1) bits payloadLen (payload, payloadByteIdx, 0, 0)
         else scatterBits n (b + 1) bits payloadLen (payload, payloadByteIdx, payloadBitIdx, currentByte))"

fun extractChannels :: "nat list \<Rightarrow> byte list \<Rightarrow> nat \<Rightarrow> nat \<Rightarrow> nat \<Rightarrow> byte list \<times> nat \<times> nat \<times> int
    \<Rightarrow> byte list \<times> nat \<times> nat \<times> int" where
  "extractChannels [] pixels targetPixelIndex bpc payloadLen s = s"
| "extractChannels (c # cs) pixels targetPixelIndex bpc payloadLen s =
     (let pIdx = targetPixelIndex * 4 + c;
          mask = push_bit bpc 1 - 1;
          bits = uint (px pixels pIdx) AND mask;
          s = scatterBits bpc 0 bits payloadLen s
      in if fst (snd s) \<ge> payloadLen then s
         else extractChannels cs pixels targetPixelIndex bpc payloadLen s)"

fun extractLoop :: "nat list \<Rightarrow> byte list \<Rightarrow> nat \<Rightarrow> nat \<Rightarrow> byte list \<times> nat \<times> nat \<times> int
    \<Rightarrow> byte list \<times> nat \<times> nat \<times> int" where
  "extractLoop [] pixels bpc payloadLen s = s"
| "extractLoop (targetPixelIndex # rest) pixels bpc payloadLen s =
     (if fst (snd s) < payloadLen
      then extractLoop rest pixels bpc payloadLen
             (extractChannels [0, 1, 2] pixels targetPixelIndex bpc payloadLen s)
      else s)"

definition stegoExtract :: "byte list \<Rightarrow> nat list \<Rightarrow> nat \<Rightarrow> nat \<Rightarrow> byte list" where
  "stegoExtract pixels shuffledIndices bpc payloadLen =
     fst (extractLoop shuffledIndices pixels bpc payloadLen (replicate payloadLen 0, 0, 0, 0))"

subsection \<open>Decoding: decodeStegoImage and decodeImageToFile\<close>

definition decodeStegoImage ::
    "(byte list \<Rightarrow> byte list option) \<Rightarrow> byte list \<Rightarrow> nat \<Rightarrow> nat \<Rightarrow> nat \<Rightarrow> nat \<Rightarrow> error + DecodedAudio" where
  "decodeStegoImage decompress pixels width height startPixelIdx startChannelIdx =
     (let (lenBytes, s) = readBytes 4 pixels (startPixelIdx, startChannelIdx);
          payloadLen = getUint32 lenBytes;
          (bpc, s) = readByte pixels s
      in if bpc < 1 \<or> bpc > 8 then Inl InvalidStegoHeader
         else if int payloadLen > int (width * height * 3) * bpc then Inl InvalidStegoHeader
         else case getShuffledIndices (width * height) RESERVED_HEADER_PIXELS of
                Inl e \<Rightarrow> Inl e
              | Inr shuffledIndices \<Rightarrow>
                  parsePayload decompress (stegoExtract pixels shuffledIndices (nat bpc) payloadLen))"

definition decodeImageToFile ::
    "(byte list \<Rightarrow> byte list option) \<Rightarrow> Image \<Rightarrow> error + DecodedAudio" where
  "decodeImageToFile decompress img =
     (let pixels = imgData img;
          width = imgWidth img;
          height = imgHeight img;
          rawCheck = [px pixels 0, px pixels 1, px pixels 2, px pixels 4];
          isStandardRaw = magicMatches rawCheck MAGIC_SNIC;
          isStandardZip = magicMatches rawCheck MAGIC_SNIZ
      in if isStandardRaw \<or> isStandardZip
         then decodeStandardImage decompress pixels width height
         else let (stegoMagicBuffer, pixelIdx, channelIdx) = readBytes 4 pixels (0, 0);
                  isStego = magicMatches stegoMagicBuffer MAGIC_SNIH
              in if isStego
                 then decodeStegoImage decompress pixels width height pixelIdx channelIdx
                 else Inl UnrecognizedFormat)"

subsection \<open>The linear stream, as the format describes it\<close>

text \<open>
  Bit \<open>k\<close> of the linear stream is the least significant bit of colour channel \<open>k mod 3\<close>
  of pixel \<open>k div 3\<close>; a byte sequence spells its bits least significant first.
\<close>

definition linearChannel :: "nat \<Rightarrow> nat" where
  "linearChannel k = (k div 3) * 4 + k mod 3"

definition linearLsb :: "byte list \<Rightarrow> nat \<Rightarrow> bool" where
  "linearLsb pixels k = bit (px pixels (linearChannel k)) 0"

definition byteBits :: "byte list \<Rightarrow> bool list" where
  "byteBits bs = concat (map (\<lambda>b. map (bit b) [0..<8]) bs)"

subsection \<open>Invariants of the loops\<close>

text \<open>
  The extraction state after at most \<open>k\<close> bits were consumed: the buffer has its declared
  length, nothing was written at or after \<open>payloadByteIdx\<close>, and the cursor is at most at bit \<open>k\<close>.
\<close>

definition zeroTail :: "nat \<Rightarrow> nat \<Rightarrow> byte list \<times> nat \<times> nat \<times> int \<Rightarrow> bool" where
  "zeroTail payloadLen k s =
     (case s of (payload, payloadByteIdx, payloadBitIdx, currentByte) \<Rightarrow>
        length payload = payloadLen
        \<and> (\<forall>i. payloadByteIdx \<le> i \<and> i < payloadLen \<longrightarrow> payload ! i = 0)
        \<and> 8 * payloadByteIdx + payloadBitIdx \<le> k)"

subsection \<open>A concrete file\<close>

text \<open>The code points of a string literal, and the file of the specification's scenario.\<close>

definition codePoints :: "string \<Rightarrow> int list" where
  "codePoints s = map of_char s"

definition scenarioFile :: File where
  "scenarioFile = \<lparr>fileBytes = [], fileType_in = codePoints ''audio/mpeg'', fileName_in = codePoints ''a.mp3''\<rparr>"

subsection \<open>Stego embedding: hideDataInImage\<close>

text \<open>
  The cover image. \<open>drawImage smooth w h\<close> stands for the canvas: the cover drawn at
  \<open>w\<close> by \<open>h\<close> (\<^verbatim>\<open>ctx.drawImage(img, 0, 0, newWidth, newHeight)\<close>, with or without
  smoothing) and read back with \<^verbatim>\<open>getImageData\<close>.
\<close>

record CoverImage =
  coverWidth :: nat
  coverHeight :: nat
  drawImage :: "bool \<Rightarrow> nat \<Rightarrow> nat \<Rightarrow> byte list"

text \<open>
  The capacity planner (the code from \<^verbatim>\<open>totalPayloadBits\<close> down to \<^verbatim>\<open>finalBPC\<close>),
  with names for \<^verbatim>\<open>minRequiredBPC\<close>, \<^verbatim>\<open>desiredPixels\<close> and the final \<^verbatim>\<open>scale\<close>.
  planCanvas returns \<open>(scale, newWidth, newHeight, finalBPC)\<close>. The divisions by
  \<^verbatim>\<open>availablePixels * 3\<close> presuppose a cover of more than 32 pixels.
\<close>

definition minRequiredBPC :: "nat \<Rightarrow> nat \<Rightarrow> nat \<Rightarrow> int" where
  "minRequiredBPC totalPayloadBits width height =
     (let availablePixels = int (width * height) - int RESERVED_HEADER_PIXELS
      in \<lceil>fl (real totalPayloadBits / of_int (availablePixels * 3))\<rceil>)"

definition desiredPixels :: "nat \<Rightarrow> nat \<Rightarrow> int" where
  "desiredPixels totalPayloadBits targetBPC =
     (let desiredChannels = \<lceil>fl (real totalPayloadBits / real targetBPC)\<rceil>
      in \<lceil>fl (of_int desiredChannels / 3)\<rceil> + int RESERVED_HEADER_PIXELS)"

definition planScale :: "nat \<Rightarrow> nat \<Rightarrow> nat \<Rightarrow> nat \<Rightarrow> real" where
  "planScale totalPayloadBits width height targetBPC =
     (let availablePixels = int (width * height) - int RESERVED_HEADER_PIXELS;
          scale = (if minRequiredBPC totalPayloadBits width height > int targetBPC
                   then fl (sqrt (fl (of_int (desiredPixels totalPayloadBits targetBPC)
                                       / real (width * height))))
                   else 1);
          utilization = fl (real totalPayloadBits / of_int (availablePixels * 3 * int targetBPC));
          scale = (if utilization > 0.5 \<and> scale = 1 then 1.25 else scale)
      in max 1 scale)"

definition planCanvas :: "nat \<Rightarrow> nat \<Rightarrow> nat \<Rightarrow> nat \<Rightarrow> real \<times> nat \<times> nat \<times> nat" where
  "planCanvas totalPayloadBits width height targetBPC =
     (let scale = planScale totalPayloadBits width height targetBPC;
          newWidth = nat \<lceil>fl (real width * scale)\<rceil>;
          newHeight = nat \<lceil>fl (real height * scale)\<rceil>;
          finalBPC = targetBPC
      in (scale, newWidth, newHeight, finalBPC))"

text \<open>\<^verbatim>\<open>for (let i = 3; i < pixels.length; i += 4) pixels[i] = 255\<close>.\<close>

definition forceOpaque :: "byte list \<Rightarrow> byte list" where
  "forceOpaque pixels = fold (\<lambda>k p. p[4 * k + 3 := 255]) [0..<length pixels div 4] pixels"

text \<open>
  The payload loop. Its state is \<open>(pixels, payloadByteIdx, payloadBitIdx)\<close>. \<open>gatherBits\<close>
  is the loop over \<open>b\<close> that fills \<open>bitsToEmbed\<close>, \<open>embedChannels\<close> the loop over the
  channels of one pixel, \<open>embedLoop\<close> the \<^verbatim>\<open>while\<close> over the shuffled indices.
\<close>

fun gatherBits :: "nat \<Rightarrow> nat \<Rightarrow> byte list \<Rightarrow> int \<times> nat \<times> nat \<Rightarrow> int \<times> nat \<times> nat" where
  "gatherBits 0 b payload s = s"
| "gatherBits (Suc n) b payload (bitsToEmbed, payloadByteIdx, payloadBitIdx) =
     (if payloadByteIdx < length payload
      then let bit = drop_bit payloadBitIdx (uint (payload ! payloadByteIdx)) AND 1;
               bitsToEmbed = bitsToEmbed OR push_bit b bit;
               payloadBitIdx = payloadBitIdx + 1
           in if payloadBitIdx = 8
              then gatherBits n (b + 1) payload (bitsToEmbed, payloadByteIdx + 1, 0)
              else gatherBits n (b + 1) payload (bitsToEmbed, payloadByteIdx, payloadBitIdx)
      else gatherBits n (b + 1) payload (bitsToEmbed, payloadByteIdx, payloadBitIdx))"

fun embedChannels :: "nat list \<Rightarrow> nat \<Rightarrow> nat \<Rightarrow> byte list \<Rightarrow> byte list \<times> nat \<times> nat
    \<Rightarrow> byte list \<times> nat \<times> nat" where
  "embedChannels [] targetPixelIndex finalBPC payload s = s"
| "embedChannels (c # cs) targetPixelIndex finalBPC payload (pixels, payloadByteIdx, payloadBitIdx) =
     (let pIdx = targetPixelIndex * 4 + c;
          (bitsToEmbed, payloadByteIdx, payloadBitIdx) =
             gatherBits finalBPC 0 payload (0, payloadByteIdx, payloadBitIdx);
          originalVal = uint (px pixels pIdx);
          modifiedVal = substituteBits originalVal finalBPC bitsToEmbed;
          modifiedVal = (if finalBPC < 8 then applyOPAP originalVal modifiedVal finalBPC else modifiedVal);
          pixels = pixels[pIdx := toUint8Clamped modifiedVal]
      in if payloadByteIdx \<ge> length payload \<and> payloadBitIdx = 0
         then (pixels, payloadByteIdx, payloadBitIdx)
         else embedChannels cs targetPixelIndex finalBPC payload (pixels, payloadByteIdx, payloadBitIdx))"

fun embedLoop :: "nat list \<Rightarrow> nat \<Rightarrow> byte list \<Rightarrow> byte list \<times> nat \<times> nat
    \<Rightarrow> byte list \<times> nat \<times> nat" where
  "embedLoop [] finalBPC payload s = s"
| "embedLoop (targetPixelIndex # rest) finalBPC payload (pixels, payloadByteIdx, payloadBitIdx) =
     (if payloadByteIdx < length payload
      then embedLoop rest finalBPC payload
             (embedChannels [0, 1, 2] targetPixelIndex finalBPC payload (pixels, payloadByteIdx, payloadBitIdx))
      else (pixels, payloadByteIdx, payloadBitIdx))"

definition hideDataInImage :: "File \<Rightarrow> CoverImage \<Rightarrow> nat \<Rightarrow> error + Image" where
  "hideDataInImage audioFile coverImage targetBPC =
     (let payload = createPayload audioFile;
          totalPayloadBits = length payload * 8;
          (scale, newWidth, newHeight, finalBPC) =
             planCanvas totalPayloadBits (coverWidth coverImage) (coverHeight coverImage) targetBPC;
          pixels = drawImage coverImage (scale > 1) newWidth newHeight;
          pixels = forceOpaque pixels;
          pixels = writeHeaderBits (headerBits (length payload) finalBPC) 0 0 pixels
      in case getShuffledIndices (newWidth * newHeight) RESERVED_HEADER_PIXELS of
           Inl e \<Rightarrow> Inl e
         | Inr shuffledIndices \<Rightarrow>
             let (pixels, payloadByteIdx, payloadBitIdx) =
                   embedLoop shuffledIndices finalBPC payload (pixels, 0, 0)
             in Inr \<lparr>imgWidth = newWidth, imgHeight = newHeight, imgData = pixels\<rparr>)"

text \<open>The factor by which rounding to 53 bits can shrink a value.\<close>

definition ulp1 :: real where "ulp1 = 1 - 1 / 2 ^ 53"

subsection \<open>Invariants of the embedding and extraction loops\<close>

text \<open>
  Bit \<open>k\<close> of the payload stream (bytes in order, least significant bit first), and the
  extraction state after exactly \<open>p\<close> bits of the payload were consumed: the cursor is at
  bit \<open>p\<close>, the bytes before the cursor are those of the payload, and \<open>currentByte\<close> holds
  the bits of the byte under the cursor read so far.
\<close>

definition payloadBit :: "byte list \<Rightarrow> nat \<Rightarrow> bool" where
  "payloadBit payload k = (k < 8 * length payload \<and> bit (payload ! (k div 8)) (k mod 8))"

definition extractedUpTo :: "byte list \<Rightarrow> nat \<Rightarrow> byte list \<times> nat \<times> nat \<times> int \<Rightarrow> bool" where
  "extractedUpTo payload p s =
     (case s of (out, payloadByteIdx, payloadBitIdx, currentByte) \<Rightarrow>
        payloadByteIdx = p div 8 \<and> payloadBitIdx = p mod 8
        \<and> length out = length payload
        \<and> (\<forall>i < p div 8. out ! i = payload ! i)
        \<and> currentByte = (if p < 8 * length payload
                          then take_bit (p mod 8) (uint (payload ! (p div 8))) else 0))"

text \<open>The value hideDataInImage stores in a channel, given its old value and \<open>bitsToEmbed\<close>.\<close>

definition embedValue :: "nat \<Rightarrow> byte \<Rightarrow> int \<Rightarrow> byte" where
  "embedValue finalBPC original bitsToEmbed =
     toUint8Clamped
       (let originalVal = uint original;
            modifiedVal = substituteBits originalVal finalBPC bitsToEmbed
        in if finalBPC < 8 then applyOPAP originalVal modifiedVal finalBPC else modifiedVal)"

text \<open>A cover of the given size whose canvas is transparent black at every resolution.\<close>

definition blankCover :: "nat \<Rightarrow> nat \<Rightarrow> CoverImage" where
  "blankCover w h = \<lparr>coverWidth = w, coverHeight = h, drawImage = (\<lambda>smooth w h. replicate (w * h * 4) 0)\<rparr>"

section \<open>Properties\<close>

subsection \<open>Bit arithmetic\<close>

lemma and_not_mask_int: "(x::int) AND NOT (mask n) = x - x mod 2 ^ n"
proof -
  have "x AND NOT (mask n) = push_bit n (drop_bit n x)"
    by (auto simp add: bit_eq_iff bit_simps)
  also have "\<dots> = x - take_bit n x"
    using bits_ident [of n x] by simp
  finally show ?thesis by (simp add: take_bit_eq_mod)
qed

lemma substituteBits_arith:
  assumes "0 \<le> bits" "bits < 2 ^ bpc"
  shows "substituteBits x bpc bits = x - x mod 2 ^ bpc + bits"
proof -
  have m: "push_bit bpc 1 - 1 = (mask bpc :: int)"
    by (simp add: mask_eq_exp_minus_1 push_bit_eq_mult)
  have b: "take_bit bpc bits = bits"
    using assms by (simp add: take_bit_int_eq_self)
  have d: "(x AND NOT (mask bpc)) AND bits = 0"
    by (subst b [symmetric]) (simp add: bit_eq_iff bit_simps)
  have "(x AND NOT (mask bpc)) OR bits = (x AND NOT (mask bpc)) + bits"
    using disjunctive_add_eq_or [OF d] by simp
  then show ?thesis
    unfolding substituteBits_def Let_def m and_not_mask_int by simp
qed

lemma and_mask_mod: "(x::int) AND (push_bit n 1 - 1) = x mod 2 ^ n"
  by (simp add: mask_eq_exp_minus_1 [symmetric] push_bit_eq_mult take_bit_eq_mask [symmetric] take_bit_eq_mod)

lemma substitute_range:
  fixes x :: int
  assumes "0 \<le> x" "x \<le> 255" "bpc \<le> 8" "0 \<le> bits" "bits < 2 ^ bpc"
  shows "0 \<le> x - x mod 2 ^ bpc + bits \<and> x - x mod 2 ^ bpc + bits \<le> 255"
proof -
  from assms(3) have "bpc \<in> {0, 1, 2, 3, 4, 5, 6, 7, 8}" by auto
  then show ?thesis
    using assms(1,2,4,5) by (elim insertE emptyE; simp; presburger)
qed

subsection \<open>Optimal pixel adjustment\<close>

text \<open>
  C5. For an original channel value in \<open>[0, 255]\<close>, a density \<open>bpc\<close> in \<open>[1, 7]\<close> and a
  modified value obtained by substituting a \<open>bpc\<close>-bit value into the low \<open>bpc\<close> bits of the
  original, the output of applyOPAP has the same low \<open>bpc\<close> bits as the modified value
  (same value under the mask \<open>(1 << bpc) - 1\<close>), it is one of modified, modified minus
  \<open>2 ^ bpc\<close> and modified plus \<open>2 ^ bpc\<close>, it lies in \<open>[0, 255]\<close>, and no candidate among
  those three that lies in \<open>[0, 255]\<close> is nearer to the original.
\<close>

theorem applyOPAP_nearest:
  assumes o: "0 \<le> original" "original \<le> 255"
      and b: "1 \<le> bpc" "bpc \<le> 7"
      and v: "0 \<le> bits" "bits < 2 ^ bpc"
      and m: "modified = substituteBits original bpc bits"
  shows "applyOPAP original modified bpc AND (push_bit bpc 1 - 1) = modified AND (push_bit bpc 1 - 1)
    \<and> 0 \<le> applyOPAP original modified bpc \<and> applyOPAP original modified bpc \<le> 255
    \<and> applyOPAP original modified bpc \<in> {modified, modified - 2 ^ bpc, modified + 2 ^ bpc}
    \<and> (\<forall>c \<in> {modified, modified - 2 ^ bpc, modified + 2 ^ bpc}. 0 \<le> c \<and> c \<le> 255 \<longrightarrow>
           \<bar>applyOPAP original modified bpc - original\<bar> \<le> \<bar>c - original\<bar>)"
proof -
  have me: "modified = original - original mod 2 ^ bpc + bits"
    using m v by (simp add: substituteBits_arith)
  have p1: "applyOPAP original modified bpc AND (push_bit bpc 1 - 1) = modified AND (push_bit bpc 1 - 1)"
    unfolding and_mask_mod by (auto simp: applyOPAP_def Let_def push_bit_eq_mult)
  have p3: "applyOPAP original modified bpc \<in> {modified, modified - 2 ^ bpc, modified + 2 ^ bpc}"
    by (auto simp: applyOPAP_def Let_def push_bit_eq_mult)
  have mod_bound: "0 \<le> original mod 2 ^ bpc" "original mod 2 ^ bpc < 2 ^ bpc"
    by simp_all
  have mr: "0 \<le> modified" "modified \<le> 255"
    using substitute_range [of original bpc bits] o b v by (simp_all add: me)
  have p2: "0 \<le> applyOPAP original modified bpc \<and> applyOPAP original modified bpc \<le> 255"
  proof -
    define I :: int where "I = 2 ^ bpc"
    have "0 < I" by (simp add: I_def)
    then show ?thesis
      using mr unfolding applyOPAP_def Let_def push_bit_eq_mult mult_1_right I_def [symmetric]
      by auto
  qed
  obtain k where k: "bpc = Suc k" using b by (cases bpc) auto
  have p4: "\<forall>c \<in> {modified, modified - 2 ^ bpc, modified + 2 ^ bpc}. 0 \<le> c \<and> c \<le> 255 \<longrightarrow>
           \<bar>applyOPAP original modified bpc - original\<bar> \<le> \<bar>c - original\<bar>"
    using mod_bound v o unfolding me k
    by (auto simp: applyOPAP_def Let_def push_bit_eq_mult)
  show ?thesis using p1 p2 p3 p4 by blast
qed

theorem applyOPAP_nearest_witness:
  "(0::int) \<le> 7 \<and> (7::int) \<le> 255 \<and> (1::nat) \<le> 3 \<and> (3::nat) \<le> 7 \<and> (0::int) \<le> 0 \<and> (0::int) < 2 ^ 3
   \<and> (8::int) = substituteBits 15 3 0
   \<and> applyOPAP 15 8 3 = 16
   \<and> applyOPAP 15 8 3 AND (push_bit 3 1 - 1) = 8 AND (push_bit 3 1 - 1)
   \<and> \<bar>applyOPAP 15 8 3 - 15\<bar> \<le> \<bar>8 - (15::int)\<bar>
   \<and> \<bar>applyOPAP 15 8 3 - 15\<bar> \<le> \<bar>0 - (15::int)\<bar>"
proof -
  have s: "(8::int) = substituteBits 15 3 0"
    by (simp add: substituteBits_def)
  have e: "applyOPAP 15 8 3 = 16"
    by (simp add: applyOPAP_def)
  show ?thesis
    using applyOPAP_nearest [of 15 3 0 8] s e by simp
qed

subsection \<open>The linear header stream\<close>

lemma bit_lsb_push: "bit (push_bit b (uint (w::byte) AND 1)) i \<longleftrightarrow> i = b \<and> bit w 0"
  by (auto simp: bit_simps bit_1_iff bit_uint_iff)

lemma bit_lsb_push': "bit (push_bit b (uint (w::byte)) AND 2 ^ b) i \<longleftrightarrow> i = b \<and> bit w 0"
  using bit_lsb_push [of b w i] by (simp add: push_bit_and)

lemma readBits_spec:
  assumes "c < 3"
  shows "\<exists>val'. readBits n b pixels (val, p, c) = (val', (3 * p + c + n) div 3, (3 * p + c + n) mod 3)
           \<and> (\<forall>i. bit val' i = (bit val i \<or> (b \<le> i \<and> i < b + n \<and> linearLsb pixels (3 * p + c + (i - b)))))"
  using assms
proof (induction n arbitrary: b val p c)
  case 0
  then show ?case by auto
next
  case (Suc n)
  have ch: "linearChannel (3 * p + c) = p * 4 + c" using Suc.prems by (simp add: linearChannel_def)
  show ?case
  proof (cases "c = 2")
    case True
    obtain val' where v: "readBits n (b + 1) pixels (val OR push_bit b (uint (px pixels (p * 4 + c)) AND 1), p + 1, 0)
        = (val', (3 * (p + 1) + 0 + n) div 3, (3 * (p + 1) + 0 + n) mod 3)"
      and bits: "\<And>i. bit val' i = (bit (val OR push_bit b (uint (px pixels (p * 4 + c)) AND 1)) i
            \<or> (b + 1 \<le> i \<and> i < b + 1 + n \<and> linearLsb pixels (3 * (p + 1) + 0 + (i - (b + 1)))))"
      using Suc.IH [where c = 0 and b = "b + 1" and p = "p + 1"
          and val = "val OR push_bit b (uint (px pixels (p * 4 + c)) AND 1)"] by auto
    have pos: "3 * (p + 1) + 0 + n = 3 * p + c + Suc n" using True by simp
    have "\<And>i. bit val' i = (bit val i \<or> (b \<le> i \<and> i < b + Suc n \<and> linearLsb pixels (3 * p + c + (i - b))))"
    proof -
      fix i
      show "bit val' i = (bit val i \<or> (b \<le> i \<and> i < b + Suc n \<and> linearLsb pixels (3 * p + c + (i - b))))"
      proof (cases "i = b")
        case True
        then show ?thesis unfolding bits [of i] by (simp add: bit_or_iff bit_lsb_push bit_lsb_push' linearLsb_def ch)
      next
        case False
        have "b + 1 \<le> i \<Longrightarrow> 3 * (p + 1) + 0 + (i - (b + 1)) = 3 * p + c + (i - b)" using \<open>c = 2\<close> by simp
        then show ?thesis unfolding bits [of i] using False by (auto simp add: bit_or_iff bit_lsb_push bit_lsb_push')
      qed
    qed
    then show ?thesis using v True unfolding pos by (simp add: Let_def)
  next
    case False
    then have c1: "c + 1 < 3" using Suc.prems by simp
    obtain val' where v: "readBits n (b + 1) pixels (val OR push_bit b (uint (px pixels (p * 4 + c)) AND 1), p, c + 1)
        = (val', (3 * p + (c + 1) + n) div 3, (3 * p + (c + 1) + n) mod 3)"
      and bits: "\<And>i. bit val' i = (bit (val OR push_bit b (uint (px pixels (p * 4 + c)) AND 1)) i
            \<or> (b + 1 \<le> i \<and> i < b + 1 + n \<and> linearLsb pixels (3 * p + (c + 1) + (i - (b + 1)))))"
      using Suc.IH [where c = "c + 1" and b = "b + 1" and p = p
          and val = "val OR push_bit b (uint (px pixels (p * 4 + c)) AND 1)"] c1 by auto
    have pos: "3 * p + (c + 1) + n = 3 * p + c + Suc n" by simp
    have "\<And>i. bit val' i = (bit val i \<or> (b \<le> i \<and> i < b + Suc n \<and> linearLsb pixels (3 * p + c + (i - b))))"
    proof -
      fix i
      show "bit val' i = (bit val i \<or> (b \<le> i \<and> i < b + Suc n \<and> linearLsb pixels (3 * p + c + (i - b))))"
      proof (cases "i = b")
        case True
        then show ?thesis unfolding bits [of i] by (simp add: bit_or_iff bit_lsb_push bit_lsb_push' linearLsb_def ch)
      next
        case False
        have "b + 1 \<le> i \<Longrightarrow> 3 * p + (c + 1) + (i - (b + 1)) = 3 * p + c + (i - b)" by simp
        then show ?thesis unfolding bits [of i] using False by (auto simp add: bit_or_iff bit_lsb_push bit_lsb_push')
      qed
    qed
    then show ?thesis using v False c1 unfolding pos by (simp add: Let_def)
  qed
qed

lemma readByte_spec:
  assumes "c < 3"
  shows "\<exists>val. readByte pixels (p, c) = (val, (3 * p + c + 8) div 3, (3 * p + c + 8) mod 3)
           \<and> (\<forall>i. bit val i = (i < 8 \<and> linearLsb pixels (3 * p + c + i)))"
  using readBits_spec [OF assms, of 8 0 pixels 0 p] by (simp add: readByte_def)

lemma readBytes_spec:
  "\<exists>bs. readBytes n pixels (k div 3, k mod 3) = (bs, (k + 8 * n) div 3, (k + 8 * n) mod 3)
      \<and> length bs = n \<and> (\<forall>m<n. \<forall>i. bit (bs ! m) i = (i < 8 \<and> linearLsb pixels (k + 8 * m + i)))"
proof (induction n arbitrary: k)
  case 0
  then show ?case by simp
next
  case (Suc n)
  have k3: "3 * (k div 3) + k mod 3 = k" by simp
  obtain val where v: "readByte pixels (k div 3, k mod 3) = (val, (k + 8) div 3, (k + 8) mod 3)"
    and vb: "\<And>i. bit val i = (i < 8 \<and> linearLsb pixels (k + i))"
    using readByte_spec [of "k mod 3" pixels "k div 3"] unfolding k3 by auto
  obtain bs where r: "readBytes n pixels ((k + 8) div 3, (k + 8) mod 3) = (bs, (k + 8 + 8 * n) div 3, (k + 8 + 8 * n) mod 3)"
    and l: "length bs = n"
    and bb: "\<And>m i. m < n \<Longrightarrow> bit (bs ! m) i = (i < 8 \<and> linearLsb pixels (k + 8 + 8 * m + i))"
    using Suc.IH [of "k + 8"] by blast
  have w: "\<And>i. bit (word_of_int val :: byte) i = (i < 8 \<and> linearLsb pixels (k + i))"
    by (auto simp: bit_word_of_int_iff vb)
  have "\<forall>m<Suc n. \<forall>i. bit ((word_of_int val # bs) ! m) i = (i < 8 \<and> linearLsb pixels (k + 8 * m + i))"
  proof (intro allI impI)
    fix m i assume "m < Suc n"
    show "bit ((word_of_int val # bs) ! m) i = (i < 8 \<and> linearLsb pixels (k + 8 * m + i))"
    proof (cases m)
      case 0
      then show ?thesis by (simp add: w)
    next
      case (Suc m')
      then have "m' < n" using \<open>m < Suc n\<close> by simp
      then show ?thesis using bb [of m' i] Suc by (simp add: add.assoc add.left_commute)
    qed
  qed
  then show ?case using v r l by (simp add: add.assoc)
qed

lemma length_byteBits: "length (byteBits bs) = 8 * length bs"
  by (induction bs) (simp_all add: byteBits_def)

lemma byteBits_nth: "k < 8 * length bs \<Longrightarrow> byteBits bs ! k = bit (bs ! (k div 8)) (k mod 8)"
proof (induction bs arbitrary: k)
  case Nil
  then show ?case by simp
next
  case (Cons a bs)
  have c: "byteBits (a # bs) = map (bit a) [0..<8] @ byteBits bs" by (simp add: byteBits_def)
  show ?case
  proof (cases "k < 8")
    case True
    then show ?thesis unfolding c by (simp add: nth_append)
  next
    case False
    then have "k - 8 < 8 * length bs" using Cons.prems by simp
    moreover have "k div 8 = Suc ((k - 8) div 8)" "k mod 8 = (k - 8) mod 8"
      using False by (simp_all add: le_div_geq le_mod_geq)
    ultimately show ?thesis using Cons.IH [of "k - 8"] False unfolding c
      by (simp add: nth_append)
  qed
qed

lemma magicMatches_unfold:
  "magicMatches check magic \<longleftrightarrow>
     4 \<le> length check \<and> check ! 0 = magic ! 0 \<and> check ! 1 = magic ! 1
       \<and> check ! 2 = magic ! 2 \<and> check ! 3 = magic ! 3"
proof -
  have "[0..<4] = [0, 1, 2, 3::nat]" by (simp add: upt_rec)
  then show ?thesis by (auto simp: magicMatches_def)
qed

lemma magicMatches_eq:
  assumes "length check = 4" "length magic = 4"
  shows "magicMatches check magic \<longleftrightarrow> check = magic"
proof -
  have "check = magic \<longleftrightarrow> (\<forall>i<4. check ! i = magic ! i)"
    using assms by (auto simp: list_eq_iff_nth_eq)
  also have "\<dots> \<longleftrightarrow> magicMatches check magic"
    using assms by (auto simp: magicMatches_def list_all_iff)
  finally show ?thesis by simp
qed

lemma readBytes_linear:
  "\<exists>bs. readBytes n pixels (k div 3, k mod 3) = (bs, (k + 8 * n) div 3, (k + 8 * n) mod 3)
      \<and> length bs = n \<and> byteBits bs = map (linearLsb pixels) [k..<k + 8 * n]"
proof -
  obtain bs where r: "readBytes n pixels (k div 3, k mod 3) = (bs, (k + 8 * n) div 3, (k + 8 * n) mod 3)"
    and l: "length bs = n"
    and b: "\<And>m i. m < n \<Longrightarrow> bit (bs ! m) i = (i < 8 \<and> linearLsb pixels (k + 8 * m + i))"
    using readBytes_spec [of n pixels k] by blast
  have "byteBits bs = map (linearLsb pixels) [k..<k + 8 * n]"
  proof (rule nth_equalityI)
    show "length (byteBits bs) = length (map (linearLsb pixels) [k..<k + 8 * n])"
      by (simp add: length_byteBits l)
  next
    fix j assume "j < length (byteBits bs)"
    then have j: "j < 8 * n" by (simp add: length_byteBits l)
    then have "j div 8 < n" by auto
    then show "byteBits bs ! j = map (linearLsb pixels) [k..<k + 8 * n] ! j"
      using j b [of "j div 8" "j mod 8"] by (simp add: byteBits_nth l add.assoc)
  qed
  then show ?thesis using r l by blast
qed

subsection \<open>Format detection\<close>

text \<open>
  C8. A pixel buffer whose four probe bytes (pixel 0 red, green, blue and pixel 1 red; a
  byte past the end of the buffer reads as 0) are neither SNIC nor SNIZ, and whose first 32
  bits of the linear stream do not spell SNIH, is rejected by decodeImageToFile with
  UnrecognizedFormat: neither decoder is entered.
\<close>

theorem decodeImageToFile_unrecognized:
  assumes "[px (imgData img) 0, px (imgData img) 1, px (imgData img) 2, px (imgData img) 4] \<noteq> MAGIC_SNIC"
      and "[px (imgData img) 0, px (imgData img) 1, px (imgData img) 2, px (imgData img) 4] \<noteq> MAGIC_SNIZ"
      and "map (linearLsb (imgData img)) [0..<32] \<noteq> byteBits MAGIC_SNIH"
  shows "decodeImageToFile decompress img = Inl UnrecognizedFormat"
proof -
  obtain bs where r: "readBytes 4 (imgData img) (0, 0) = (bs, 10, 2)"
    and l: "length bs = 4" and b: "byteBits bs = map (linearLsb (imgData img)) [0..<32]"
    using readBytes_linear [of 4 "imgData img" 0] by auto
  have "bs \<noteq> MAGIC_SNIH" using b assms(3) by auto
  then have "\<not> magicMatches bs MAGIC_SNIH"
    using l by (simp add: magicMatches_eq MAGIC_SNIH_def)
  moreover have "\<not> magicMatches [px (imgData img) 0, px (imgData img) 1, px (imgData img) 2, px (imgData img) 4] MAGIC_SNIC"
    using assms(1) by (simp add: magicMatches_eq MAGIC_SNIC_def)
  moreover have "\<not> magicMatches [px (imgData img) 0, px (imgData img) 1, px (imgData img) 2, px (imgData img) 4] MAGIC_SNIZ"
    using assms(2) by (simp add: magicMatches_eq MAGIC_SNIZ_def)
  ultimately show ?thesis
    using r by (simp add: decodeImageToFile_def Let_def)
qed

theorem decodeImageToFile_unrecognized_witness:
  "decodeImageToFile (\<lambda>d. None) \<lparr>imgWidth = 1, imgHeight = 1, imgData = [0, 0, 0, 255]\<rparr> = Inl UnrecognizedFormat"
proof -
  let ?img = "\<lparr>imgWidth = 1, imgHeight = 1, imgData = [0, 0, 0, 255]\<rparr>"
  have 1: "[px (imgData ?img) 0, px (imgData ?img) 1, px (imgData ?img) 2, px (imgData ?img) 4] \<noteq> MAGIC_SNIC"
    by (simp add: px_def MAGIC_SNIC_def)
  have 2: "[px (imgData ?img) 0, px (imgData ?img) 1, px (imgData ?img) 2, px (imgData ?img) 4] \<noteq> MAGIC_SNIZ"
    by (simp add: px_def MAGIC_SNIZ_def)
  have 3: "map (linearLsb (imgData ?img)) [0..<32] \<noteq> byteBits MAGIC_SNIH"
    by code_simp
  show ?thesis
    by (rule decodeImageToFile_unrecognized [OF 1 2 3])
qed

subsection \<open>The stego extractor\<close>

lemma scatterBits_zeroTail:
  "zeroTail L k s \<Longrightarrow> zeroTail L (k + n) (scatterBits n b bits L s)"
proof (induction n arbitrary: b s k)
  case 0
  then show ?case by simp
next
  case (Suc n)
  obtain payload byteIdx bitIdx cur where s: "s = (payload, byteIdx, bitIdx, cur)"
    by (cases s) auto
  show ?case
  proof (cases "bitIdx + 1 = 8")
    case True
    let ?s' = "(payload[byteIdx := word_of_int (cur OR push_bit bitIdx (drop_bit b bits AND 1))], byteIdx + 1, 0::nat, 0::int)"
    have z: "zeroTail L (k + 1) ?s'"
      using Suc.prems True unfolding s zeroTail_def by auto
    show ?thesis
    proof (cases "byteIdx + 1 \<ge> L")
      case True
      have "zeroTail L (k + Suc n) ?s'"
        using z unfolding zeroTail_def by auto
      then show ?thesis using True \<open>bitIdx + 1 = 8\<close> unfolding s by (simp add: Let_def)
    next
      case False
      have "zeroTail L (k + 1 + n) (scatterBits n (b + 1) bits L ?s')"
        by (rule Suc.IH [OF z])
      then show ?thesis using False \<open>bitIdx + 1 = 8\<close> unfolding s by (simp add: Let_def)
    qed
  next
    case False
    let ?s' = "(payload, byteIdx, bitIdx + 1, cur OR push_bit bitIdx (drop_bit b bits AND 1))"
    have z: "zeroTail L (k + 1) ?s'"
      using Suc.prems unfolding s zeroTail_def by auto
    have "zeroTail L (k + 1 + n) (scatterBits n (b + 1) bits L ?s')"
      by (rule Suc.IH [OF z])
    then show ?thesis using False unfolding s by (simp add: Let_def)
  qed
qed

lemma extractChannels_zeroTail:
  "zeroTail L k s \<Longrightarrow> zeroTail L (k + length cs * bpc) (extractChannels cs pixels t bpc L s)"
proof (induction cs arbitrary: s k)
  case Nil
  then show ?case by simp
next
  case (Cons c cs)
  let ?s' = "scatterBits bpc 0 (uint (px pixels (t * 4 + c)) AND (push_bit bpc 1 - 1)) L s"
  have z: "zeroTail L (k + bpc) ?s'"
    by (rule scatterBits_zeroTail [OF Cons.prems])
  show ?case
  proof (cases "fst (snd ?s') \<ge> L")
    case True
    have "zeroTail L (k + length (c # cs) * bpc) ?s'"
      using z unfolding zeroTail_def by (auto split: prod.splits)
    then show ?thesis using True by (simp add: Let_def)
  next
    case False
    have "zeroTail L (k + bpc + length cs * bpc) (extractChannels cs pixels t bpc L ?s')"
      by (rule Cons.IH [OF z])
    then show ?thesis using False by (simp add: Let_def add.assoc)
  qed
qed

lemma extractLoop_zeroTail:
  "zeroTail L k s \<Longrightarrow> zeroTail L (k + length ts * (3 * bpc)) (extractLoop ts pixels bpc L s)"
proof (induction ts arbitrary: s k)
  case Nil
  then show ?case by simp
next
  case (Cons t ts)
  show ?case
  proof (cases "fst (snd s) < L")
    case True
    have "k + length [0, 1, 2::nat] * bpc = k + 3 * bpc" by simp
    then have z: "zeroTail L (k + 3 * bpc) (extractChannels [0, 1, 2] pixels t bpc L s)"
      using extractChannels_zeroTail [OF Cons.prems, of "[0, 1, 2]" bpc pixels t] by metis
    have "zeroTail L (k + 3 * bpc + length ts * (3 * bpc)) (extractLoop ts pixels bpc L (extractChannels [0, 1, 2] pixels t bpc L s))"
      by (rule Cons.IH [OF z])
    then show ?thesis using True by (simp add: add.assoc)
  next
    case False
    have "zeroTail L (k + length (t # ts) * (3 * bpc)) s"
      using Cons.prems unfolding zeroTail_def by (auto split: prod.splits)
    then show ?thesis using False by simp
  qed
qed

text \<open>
  C10. The extraction loop of decodeStegoImage (the code after the header checks and the
  shuffle) returns a buffer of exactly the declared length, whatever the density and the
  shuffled index sequence; it is a total function, so it raises nothing. Every byte at an
  index from \<open>(length shuffledIndices * 3 * bpc) div 8\<close> on, the number of whole bytes the
  index sequence can supply, is 0: when the sequence is exhausted early, the buffer is zero-padded.
\<close>

theorem stegoExtract_zero_padded:
  "length (stegoExtract pixels shuffledIndices bpc payloadLen) = payloadLen
   \<and> (\<forall>i. length shuffledIndices * 3 * bpc div 8 \<le> i \<and> i < payloadLen
          \<longrightarrow> stegoExtract pixels shuffledIndices bpc payloadLen ! i = 0)"
proof -
  have "zeroTail payloadLen 0 (replicate payloadLen 0, 0, 0, 0)"
    by (simp add: zeroTail_def)
  from extractLoop_zeroTail [OF this, of shuffledIndices bpc pixels]
  have z: "zeroTail payloadLen (length shuffledIndices * (3 * bpc))
      (extractLoop shuffledIndices pixels bpc payloadLen (replicate payloadLen 0, 0, 0, 0))"
    by simp
  obtain payload byteIdx bitIdx cur where
    e: "extractLoop shuffledIndices pixels bpc payloadLen (replicate payloadLen 0, 0, 0, 0) = (payload, byteIdx, bitIdx, cur)"
    by (cases "extractLoop shuffledIndices pixels bpc payloadLen (replicate payloadLen 0, 0, 0, 0)") auto
  have l: "length payload = payloadLen"
    and t: "\<And>i. byteIdx \<le> i \<Longrightarrow> i < payloadLen \<Longrightarrow> payload ! i = 0"
    and p: "8 * byteIdx + bitIdx \<le> length shuffledIndices * (3 * bpc)"
    using z unfolding e zeroTail_def by auto
  have "byteIdx \<le> length shuffledIndices * 3 * bpc div 8"
    using p by (simp add: mult.assoc)
  then show ?thesis using l t by (auto simp: stegoExtract_def e)
qed

theorem stegoExtract_zero_padded_witness:
  "length (stegoExtract (replicate 132 255) [32] 1 2) = 2
   \<and> stegoExtract (replicate 132 255) [32] 1 2 ! 0 = 0
   \<and> stegoExtract (replicate 132 255) [32] 1 2 ! 1 = 0"
  using stegoExtract_zero_padded [of "replicate 132 255" "[32]" 1 2] by simp

subsection \<open>The payload parser\<close>

lemma parsePayload_RangeError_iff:
  "parsePayload decompress buffer = Inl RangeError \<longleftrightarrow>
     (magicMatches (slice buffer 0 4) MAGIC_SNIC \<or> magicMatches (slice buffer 0 4) MAGIC_SNIZ)
     \<and> length buffer < 8"
  by (auto simp: parsePayload_def Let_def slice_def split: option.splits)

lemma parsePayload_not_header_error:
  "parsePayload decompress buffer \<noteq> Inl InvalidStegoHeader"
  by (auto simp: parsePayload_def Let_def split: option.splits)

lemma parsePayload_magic_iff:
  "parsePayload decompress buffer = Inl UnrecognizedPayloadMagic \<longleftrightarrow>
     \<not> magicMatches (slice buffer 0 4) MAGIC_SNIC \<and> \<not> magicMatches (slice buffer 0 4) MAGIC_SNIZ"
  by (auto simp: parsePayload_def Let_def split: option.splits)

lemma parsePayload_TruncatedHeader_iff:
  "parsePayload decompress buffer = Inl TruncatedHeader \<longleftrightarrow>
     (magicMatches (slice buffer 0 4) MAGIC_SNIC \<or> magicMatches (slice buffer 0 4) MAGIC_SNIZ)
     \<and> 8 \<le> length buffer
     \<and> (length buffer < 9
        \<or> length buffer < 9 + unat (buffer ! 8)
        \<or> length buffer < 10 + unat (buffer ! 8)
        \<or> length buffer < 10 + unat (buffer ! 8) + unat (buffer ! (9 + unat (buffer ! 8))))"
  by (auto simp: parsePayload_def Let_def slice_def split: option.splits)

text \<open>
  C7. The parser guards the reads of mimeLen, mime, nameLen and name with a
  \<^verbatim>\<open>Header Read Error\<close>, but reads the dataLength field through a \<^verbatim>\<open>DataView\<close> over
  \<^verbatim>\<open>buffer.slice(4, 8)\<close> with no guard. On a buffer that carries a valid magic and ends
  inside the dataLength field, \<^verbatim>\<open>getUint32\<close> throws the platform's RangeError, not
  TruncatedHeader. Such a buffer reaches the parser: a 2 by 1 noise image has six bytes.
\<close>

theorem parsePayload_length_field_cut:
  "parsePayload (\<lambda>d. None) [0x53, 0x4E, 0x49, 0x43, 0, 0] = Inl RangeError"
  by code_simp

subsection \<open>The stego header check\<close>

lemma getShuffledIndices_not_header_error:
  "getShuffledIndices N R \<noteq> Inl InvalidStegoHeader"
  by (simp add: getShuffledIndices_def Let_def)

lemma decodeStegoImage_InvalidStegoHeader_iff:
  "decodeStegoImage decompress pixels width height p c = Inl InvalidStegoHeader \<longleftrightarrow>
     (let (lenBytes, s) = readBytes 4 pixels (p, c);
          (bpc, s) = readByte pixels s
      in bpc < 1 \<or> bpc > 8 \<or> int (getUint32 lenBytes) > int (width * height * 3) * bpc)"
proof -
  obtain lenBytes s where r: "readBytes 4 pixels (p, c) = (lenBytes, s)"
    by (cases "readBytes 4 pixels (p, c)") auto
  obtain bpc s' where b: "readByte pixels s = (bpc, s')"
    by (cases "readByte pixels s") auto
  show ?thesis
    unfolding decodeStegoImage_def r b Let_def prod.case
    using getShuffledIndices_not_header_error [of "width * height" RESERVED_HEADER_PIXELS]
      parsePayload_not_header_error [of decompress]
    by (auto split: sum.splits)
qed

text \<open>
  C4. decodeStegoImage compares the declared length, a number of bytes, with
  \<^verbatim>\<open>width * height * 3 * bpc\<close>, a number of bits. An 8 by 8 image whose header declares
  100 bytes at one bit per channel has a capacity of \<open>8 * 8 * 3 * 1 div 8 = 24\<close> bytes, and
  the decoder does not reject its header.
\<close>

theorem decodeImageToFile_overlong_accepted:
  "decodeImageToFile (\<lambda>d. None)
     \<lparr>imgWidth = 8, imgHeight = 8,
      imgData = writeHeaderBits (headerBits 100 1) 0 0 (concat (replicate 64 [0, 0, 0, 255]))\<rparr>
   \<noteq> Inl InvalidStegoHeader"
proof -
  define d where "d = writeHeaderBits (headerBits 100 1) 0 0 (concat (replicate 64 [0, 0, 0, 255]))"
  have m: "readBytes 4 d (0, 0) = ([0x53, 0x4E, 0x49, 0x48], 10, 2)"
    unfolding d_def by code_simp
  have l: "readBytes 4 d (10, 2) = ([100, 0, 0, 0], 21, 1)"
    unfolding d_def by code_simp
  have b: "readByte d (21, Suc 0) = (1, 24, 0)"
    unfolding d_def by code_simp
  have g: "getUint32 [100, 0, 0, 0] = 100"
    by (simp add: getUint32_def)
  have s: "\<exists>sh. getShuffledIndices (8 * 8) RESERVED_HEADER_PIXELS = Inr sh"
    by (simp add: getShuffledIndices_def RESERVED_HEADER_PIXELS_def)
  have "decodeStegoImage (\<lambda>d. None) d 8 8 10 2 \<noteq> Inl InvalidStegoHeader"
    using s by (auto simp add: decodeStegoImage_def l b g parsePayload_not_header_error)
  moreover have "magicMatches [0x53, 0x4E, 0x49, 0x48] MAGIC_SNIH"
    by (simp add: magicMatches_unfold MAGIC_SNIH_def)
  ultimately show ?thesis
    unfolding d_def [symmetric]
    by (simp add: decodeImageToFile_def Let_def m decodeStandardImage_def parsePayload_not_header_error)
qed

subsection \<open>The pixel shuffle\<close>

lemma round53_small: "\<bar>x\<bar> < 2 ^ 53 \<Longrightarrow> round53 x = x"
  by (simp add: round53_def bitlen_le_iff_power)

lemma round53_upper:
  assumes x: "0 \<le> x" and n1: "1 \<le> n" and n: "x \<le> n * 4294967296 - n"
  shows "round53 x < n * 4294967296"
proof (cases "bitlen \<bar>x\<bar> \<le> 53")
  case True
  then have "round53 x = x" by (simp add: round53_def)
  then show ?thesis using n n1 by linarith
next
  case False
  have ax: "\<bar>x\<bar> = x" using x by simp
  have xpos: "0 < x" using False x by (cases "x = 0") auto
  define e where "e = nat (bitlen x - 53)"
  define h :: int where "h = 2 ^ (e - 1)"
  define q where "q = x div 2 ^ e"
  define r where "r = x mod 2 ^ e"
  define m where "m = (if r < h then q else if r > h then q + 1 else if even q then q else q + 1)"
  have e1: "1 \<le> e" using False unfolding e_def ax by simp
  have two: "(2::int) ^ e = 2 * h"
    using e1 unfolding h_def by (cases e) simp_all
  have hpos: "1 \<le> h" unfolding h_def by simp
  have "nat (bitlen x - 1) = (e - 1) + 53"
    using False unfolding e_def ax by simp
  then have hx: "h * 2 ^ 53 \<le> x"
    using bitlen_bounds [OF xpos] unfolding h_def by (simp add: power_add)
  have decomp: "x = q * 2 ^ e + r" unfolding q_def r_def by (simp add: div_mult_mod_eq)
  have rlt: "r < 2 ^ e" unfolding r_def by simp
  have rv: "round53 x = m * 2 ^ e"
    using False xpos unfolding round53_def ax Let_def m_def q_def r_def h_def e_def
    by simp
  have mb: "m * 2 ^ e \<le> x + h"
  proof (cases "m = q")
    case True
    have "0 \<le> r" unfolding r_def by simp
    then show ?thesis using decomp True hpos by simp
  next
    case False
    then have mq: "m = q + 1" and rh: "h \<le> r"
      unfolding m_def by (auto split: if_splits)
    have "m * 2 ^ e = q * 2 ^ e + 2 * h" unfolding mq two by (simp add: algebra_simps)
    then show ?thesis using decomp rh by linarith
  qed
  have "h * 2 ^ 53 < n * 4294967296" using hx n n1 by linarith
  then have "(h * 2097152) * 4294967296 < n * 4294967296" by simp
  then have "h * 2097152 < n" by simp
  then have "h < n" using hpos by linarith
  then show ?thesis using mb n unfolding rv by linarith
qed

lemma int_div_less:
  fixes a b c :: int
  assumes c: "0 < c" and ab: "a < b * c"
  shows "a div c < b"
proof -
  have "0 \<le> a mod c" using c by simp
  moreover have "a = a div c * c + a mod c" by (simp add: div_mult_mod_eq)
  ultimately have "a div c * c \<le> a" by linarith
  then have "a div c * c < b * c" using ab by linarith
  then show ?thesis using c by (simp add: mult_less_cancel_right)
qed

lemma randomIndex_le: "randomIndex r i \<le> i"
proof -
  have u: "uint r \<le> 4294967295" using uint_bounded [of r] by simp
  have "uint r * int (i + 1) \<le> 4294967295 * int (i + 1)"
    using u by (intro mult_right_mono) simp_all
  then have "uint r * int (i + 1) \<le> int (i + 1) * 4294967296 - int (i + 1)"
    by (simp add: algebra_simps)
  moreover have "0 \<le> uint r * int (i + 1)" by simp
  ultimately have "round53 (uint r * int (i + 1)) < int (i + 1) * 4294967296"
    by (intro round53_upper) simp_all
  then have "round53 (uint r * int (i + 1)) div 4294967296 < int (i + 1)"
    by (intro int_div_less) simp_all
  then show ?thesis unfolding randomIndex_def by simp
qed

lemma shuffleLoop_permutes:
  "i < length xs \<Longrightarrow>
     length (shuffleLoop i seed xs) = length xs
     \<and> set (shuffleLoop i seed xs) = set xs
     \<and> distinct (shuffleLoop i seed xs) = distinct xs"
proof (induction i arbitrary: seed xs)
  case 0
  then show ?case by simp
next
  case (Suc i)
  obtain r seed' where rs: "random seed = (r, seed')" by (cases "random seed") auto
  define j where "j = randomIndex r (Suc i)"
  define ys where "ys = xs[Suc i := xs ! j, j := xs ! Suc i]"
  have j: "j < length xs" using randomIndex_le [of r "Suc i"] Suc.prems unfolding j_def by simp
  have step: "shuffleLoop (Suc i) seed xs = shuffleLoop i seed' ys"
    by (simp add: rs Let_def j_def ys_def)
  have ys: "length ys = length xs" "set ys = set xs" "distinct ys = distinct xs"
    using j Suc.prems unfolding ys_def by simp_all
  have "i < length ys" using Suc.prems ys(1) by simp
  from Suc.IH [OF this, of seed'] show ?case unfolding step ys by simp
qed

lemma shuffle_initial:
  assumes "N \<le> 4294967296"
  shows "map (\<lambda>i. nat (int (R + i) mod 4294967296)) [0..<N - R] = [R..<N]"
proof (rule nth_equalityI)
  show "length (map (\<lambda>i. nat (int (R + i) mod 4294967296)) [0..<N - R]) = length [R..<N]" by simp
next
  fix i assume "i < length (map (\<lambda>i. nat (int (R + i) mod 4294967296)) [0..<N - R])"
  then have i: "i < N - R" by simp
  then have "int (R + i) < 4294967296" using assms by linarith
  then have "int (R + i) mod 4294967296 = int (R + i)" by simp
  then show "map (\<lambda>i. nat (int (R + i) mod 4294967296)) [0..<N - R] ! i = [R..<N] ! i"
    using i by simp
qed

lemma getShuffledIndices_perm:
  assumes "R \<le> N" and "N \<le> 4294967296"
  shows "\<exists>xs. getShuffledIndices N R = Inr xs \<and> length xs = N - R \<and> distinct xs \<and> set xs = {R..<N}"
proof -
  let ?xs = "shuffleLoop (N - R - 1) (sint ((1337 :: 32 word) XOR 0xDEADBEEF)) [R..<N]"
  have g: "getShuffledIndices N R = Inr ?xs"
    unfolding getShuffledIndices_def Let_def shuffle_initial [OF assms(2)]
    using assms(1) by simp
  have "length ?xs = N - R \<and> distinct ?xs \<and> set ?xs = {R..<N}"
  proof (cases "R < N")
    case True
    then have "N - R - 1 < length [R..<N]" by simp
    from shuffleLoop_permutes [OF this] show ?thesis by simp
  next
    case False
    then have "N = R" using assms by simp
    then show ?thesis by simp
  qed
  then show ?thesis using g by blast
qed

text \<open>
  C3. For \<open>R \<le> N\<close>, with \<open>N\<close> at most \<open>2 ^ 32\<close> (the indices live in a
  \<^verbatim>\<open>Uint32Array\<close>), getShuffledIndices returns a sequence of length \<open>N - R\<close> without
  repetition whose elements are exactly the integers of \<open>[R, N)\<close>. The seed is set inside
  the call to the constant \<open>1337 XOR 0xDEADBEEF\<close>, so the sequence is a function of
  \<open>(N, R)\<close> alone: every call with the same arguments returns the same sequence.
\<close>

theorem getShuffledIndices_permutation:
  assumes "R \<le> N" and "N \<le> 4294967296"
  shows "\<exists>xs. getShuffledIndices N R = Inr xs \<and> length xs = N - R \<and> distinct xs \<and> set xs = {R..<N}
           \<and> (\<forall>N' R'. N' = N \<and> R' = R \<longrightarrow> getShuffledIndices N' R' = Inr xs)"
  using getShuffledIndices_perm [OF assms] by auto

theorem getShuffledIndices_permutation_witness:
  "(32::nat) \<le> 36 \<and> (36::nat) \<le> 4294967296
   \<and> (\<exists>xs. getShuffledIndices 36 32 = Inr xs \<and> length xs = 4 \<and> distinct xs \<and> set xs = {32..<36})"
  using getShuffledIndices_permutation [of 32 36] by auto

subsection \<open>Rounding to double precision\<close>

lemma rne_error: "\<bar>of_int (rne y) - y\<bar> \<le> 1 / 2"
proof -
  have "of_int \<lfloor>y\<rfloor> \<le> y" "y < of_int \<lfloor>y\<rfloor> + 1" by linarith+
  then show ?thesis unfolding rne_def Let_def by (auto simp: abs_le_iff)
qed

lemma rne_of_int: "rne (of_int n) = n"
  by (simp add: rne_def)

lemma fl_zero: "fl 0 = 0"
  by (simp add: fl_def)

lemma fl_error: "\<bar>fl x - x\<bar> \<le> \<bar>x\<bar> / 2 ^ 53"
proof (cases "x = 0")
  case True
  then show ?thesis by (simp add: fl_def)
next
  case False
  define e where "e = \<lfloor>log 2 \<bar>x\<bar>\<rfloor> - 52"
  define p :: real where "p = 2 powr (of_int e)"
  have ppos: "0 < p" unfolding p_def by simp
  have f: "fl x = of_int (rne (x / p)) * p"
    using False unfolding fl_def Let_def e_def p_def by simp
  have "fl x - x = (of_int (rne (x / p)) - x / p) * p"
    using ppos unfolding f by (simp add: algebra_simps)
  then have "\<bar>fl x - x\<bar> = \<bar>of_int (rne (x / p)) - x / p\<bar> * p"
    using ppos by (simp add: abs_mult)
  also have "\<dots> \<le> (1 / 2) * p"
    using rne_error [of "x / p"] ppos by (intro mult_right_mono) simp_all
  finally have a: "\<bar>fl x - x\<bar> \<le> p / 2" by simp
  have "of_int e \<le> log 2 \<bar>x\<bar> - 52" unfolding e_def by simp
  then have "p \<le> 2 powr (log 2 \<bar>x\<bar> - 52)" unfolding p_def by (simp add: powr_mono)
  also have "\<dots> = \<bar>x\<bar> / 2 ^ 52"
    using False by (simp add: powr_diff powr_realpow [symmetric])
  finally have "p / 2 \<le> \<bar>x\<bar> / 2 ^ 53" by simp
  then show ?thesis using a by linarith
qed

lemma fl_bounds:
  assumes "0 \<le> x"
  shows "x - x / 2 ^ 53 \<le> fl x" and "fl x \<le> x + x / 2 ^ 53"
proof -
  have "\<bar>fl x - x\<bar> \<le> x / 2 ^ 53"
    using fl_error [of x] assms by (simp only: abs_of_nonneg)
  then have "- (x / 2 ^ 53) \<le> fl x - x" "fl x - x \<le> x / 2 ^ 53"
    by (simp_all only: abs_le_iff minus_diff_eq) linarith+
  then show "x - x / 2 ^ 53 \<le> fl x" and "fl x \<le> x + x / 2 ^ 53"
    by linarith+
qed

lemma fl_nonneg: "0 \<le> x \<Longrightarrow> 0 \<le> fl x"
proof -
  assume x: "0 \<le> x"
  have "x / 2 ^ 53 \<le> x" using x by (simp add: divide_le_eq)
  then show ?thesis using fl_bounds(1) [OF x] by linarith
qed

lemma fl_of_int:
  assumes "\<bar>n\<bar> < 2 ^ 53"
  shows "fl (of_int n) = of_int n"
proof (cases "n = 0")
  case True
  then show ?thesis by (simp add: fl_def)
next
  case False
  define L where "L = \<lfloor>log 2 \<bar>of_int n :: real\<bar>\<rfloor>"
  have n1: "1 \<le> \<bar>of_int n :: real\<bar>" using False by (simp flip: of_int_abs)
  have lo: "0 \<le> L"
    unfolding L_def using n1 by simp
  have "\<bar>of_int n :: real\<bar> < 2 ^ 53" using assms
    by (metis of_int_abs of_int_less_numeral_power_cancel_iff)
  then have "log 2 \<bar>of_int n :: real\<bar> < 53"
    using n1 by (simp add: log_less_iff powr_realpow [symmetric])
  then have hi: "L \<le> 52" unfolding L_def by simp
  define k where "k = nat (52 - L)"
  have e: "L - 52 = - int k" using hi unfolding k_def by simp
  have p: "(2::real) powr (of_int (L - 52)) = 1 / 2 ^ k"
    unfolding e by (simp add: powr_minus powr_realpow divide_simps)
  have "of_int n / (1 / 2 ^ k) = (of_int (n * 2 ^ k) :: real)" by simp
  then have r: "rne (of_int n / (1 / 2 ^ k)) = n * 2 ^ k"
    by (simp only: rne_of_int)
  show ?thesis
    using False unfolding fl_def Let_def L_def [symmetric] p r by simp
qed

lemma fl_of_nat: "n < 2 ^ 53 \<Longrightarrow> fl (of_nat n) = of_nat n"
  using fl_of_int [of "int n"] by simp

subsection \<open>Strings: UTF-8 encoding and decoding\<close>

lemma and_mask_int_mod:
  "(x::int) AND 0x3F = x mod 64" "(x::int) AND 0x1F = x mod 32"
  "(x::int) AND 0xF = x mod 16" "(x::int) AND 0x7 = x mod 8"
proof -
  have m: "(0x3F::int) = mask 6" "(0x1F::int) = mask 5" "(0xF::int) = mask 4" "(0x7::int) = mask 3"
    by (simp_all add: mask_eq_exp_minus_1)
  show "(x::int) AND 0x3F = x mod 64" "(x::int) AND 0x1F = x mod 32"
    "(x::int) AND 0xF = x mod 16" "(x::int) AND 0x7 = x mod 8"
    unfolding m take_bit_eq_mask [symmetric] by (simp_all add: take_bit_eq_mod)
qed

lemma push_bit_or_add:
  fixes x y :: int
  assumes "0 \<le> y" "y < 2 ^ n"
  shows "push_bit n x OR y = x * 2 ^ n + y"
proof -
  have b: "take_bit n y = y" using assms by (simp add: take_bit_int_eq_self)
  have d: "push_bit n x AND y = 0"
    by (subst b [symmetric]) (auto simp add: bit_eq_iff bit_simps)
  show ?thesis using disjunctive_add_eq_or [OF d] by (simp add: push_bit_eq_mult)
qed

lemma continuation_byte:
  fixes x :: int
  shows "0x80 OR (x AND 0x3F) = 128 + x mod 64"
proof -
  have r: "0 \<le> x mod 64" "x mod 64 < 64" by simp_all
  then have "x mod 64 < 2 ^ 7" by simp
  with r(1) have "push_bit 7 1 OR (x mod 64) = 1 * 2 ^ 7 + x mod 64"
    by (rule push_bit_or_add)
  then show ?thesis by (simp add: and_mask_int_mod)
qed

lemma uint_byte: "0 \<le> x \<Longrightarrow> x < 256 \<Longrightarrow> uint (word_of_int x :: byte) = x"
  by (simp add: uint_word_of_int_eq take_bit_int_eq_self)

lemma utf8Encoder_1: "c \<le> 0x7F \<Longrightarrow> utf8Encoder c = [word_of_int c]"
  by (simp add: utf8Encoder_def)

lemma utf8Encoder_2:
  "0x80 \<le> c \<Longrightarrow> c \<le> 0x7FF \<Longrightarrow>
     utf8Encoder c = [word_of_int (c div 64 + 192), word_of_int (128 + c mod 64)]"
  by (simp add: utf8Encoder_def continuation_byte drop_bit_eq_div)

lemma utf8Encoder_3:
  "0x800 \<le> c \<Longrightarrow> c \<le> 0xFFFF \<Longrightarrow>
     utf8Encoder c = [word_of_int (c div 4096 + 224), word_of_int (128 + c div 64 mod 64),
                      word_of_int (128 + c mod 64)]"
  by (simp add: utf8Encoder_def continuation_byte drop_bit_eq_div upt_rec)

lemma utf8Encoder_4:
  "0x10000 \<le> c \<Longrightarrow>
     utf8Encoder c = [word_of_int (c div 262144 + 240), word_of_int (128 + c div 4096 mod 64),
                      word_of_int (128 + c div 64 mod 64), word_of_int (128 + c mod 64)]"
  by (simp add: utf8Encoder_def continuation_byte drop_bit_eq_div upt_rec)

lemma mod_shift:
  fixes r :: int
  assumes "0 \<le> r" "r < k"
  shows "(r + q * k) mod k = r"
  using assms by simp

lemma low_bits_of_sum:
  fixes a r :: int
  shows "0 \<le> r \<Longrightarrow> r < 64 \<Longrightarrow> (128 + r) AND 0x3F = r"
    and "0 \<le> a \<Longrightarrow> a < 32 \<Longrightarrow> (a + 192) AND 0x1F = a"
    and "0 \<le> a \<Longrightarrow> a < 16 \<Longrightarrow> (a + 224) AND 0xF = a"
    and "0 \<le> a \<Longrightarrow> a < 8 \<Longrightarrow> (a + 240) AND 0x7 = a"
  unfolding and_mask_int_mod
  using mod_shift [of r 64 2] mod_shift [of a 32 6] mod_shift [of a 16 14] mod_shift [of a 8 30]
  by (simp_all add: add.commute)

lemma shift_in:
  fixes x r :: int
  assumes "0 \<le> r" "r < 64"
  shows "push_bit 6 x OR r = x * 64 + r"
proof -
  have "r < 2 ^ 6" using assms(2) by simp
  with assms(1) have "push_bit 6 x OR r = x * 2 ^ 6 + r" by (rule push_bit_or_add)
  then show ?thesis by simp
qed

lemma utf8Decoder_lead:
  "utf8Decoder (codePoint, bytesSeen, 0, lowerBoundary, upperBoundary) (b # bs) =
     (if uint b \<le> 0x7F then uint b # utf8Decoder (0, 0, 0, 0x80, 0xBF) bs
      else if 0xC2 \<le> uint b \<and> uint b \<le> 0xDF
        then utf8Decoder (uint b AND 0x1F, 0, 1, 0x80, 0xBF) bs
      else if 0xE0 \<le> uint b \<and> uint b \<le> 0xEF
        then utf8Decoder (uint b AND 0xF, 0, 2,
               if uint b = 0xE0 then 0xA0 else 0x80, if uint b = 0xED then 0x9F else 0xBF) bs
      else if 0xF0 \<le> uint b \<and> uint b \<le> 0xF4
        then utf8Decoder (uint b AND 0x7, 0, 3,
               if uint b = 0xF0 then 0x90 else 0x80, if uint b = 0xF4 then 0x8F else 0xBF) bs
      else 0xFFFD # utf8Decoder (0, 0, 0, 0x80, 0xBF) bs)"
  by (subst utf8Decoder.simps) (simp only: Let_def if_True refl)

lemma utf8Decoder_continuation:
  assumes "bytesNeeded \<noteq> 0" "lowerBoundary \<le> uint b" "uint b \<le> upperBoundary"
  shows "utf8Decoder (codePoint, bytesSeen, bytesNeeded, lowerBoundary, upperBoundary) (b # bs) =
     (if bytesSeen + 1 \<noteq> bytesNeeded
      then utf8Decoder (push_bit 6 codePoint OR (uint b AND 0x3F), bytesSeen + 1, bytesNeeded, 0x80, 0xBF) bs
      else (push_bit 6 codePoint OR (uint b AND 0x3F)) # utf8Decoder (0, 0, 0, 0x80, 0xBF) bs)"
  by (subst utf8Decoder.simps) (simp only: Let_def assms if_False if_True simp_thms)

lemma utf8Decoder_1:
  assumes "uint b = c" "c \<le> 0x7F"
  shows "utf8Decoder (0, 0, 0, 0x80, 0xBF) (b # rest)
           = c # utf8Decoder (0, 0, 0, 0x80, 0xBF) rest"
  unfolding utf8Decoder_lead using assms by simp

lemma utf8Decoder_2:
  assumes u: "uint b1 = a + 192" "uint b2 = 128 + r"
      and a: "2 \<le> a" "a \<le> 31" and r: "0 \<le> r" "r < 64"
  shows "utf8Decoder (0, 0, 0, 0x80, 0xBF) (b1 # b2 # rest)
           = (a * 64 + r) # utf8Decoder (0, 0, 0, 0x80, 0xBF) rest"
proof -
  have l: "(a + 192) AND 0x1F = a" "(128 + r) AND 0x3F = r"
    using a r by (simp_all add: low_bits_of_sum)
  have s1: "utf8Decoder (0, 0, 0, 0x80, 0xBF) (b1 # b2 # rest)
          = utf8Decoder (a, 0, 1, 0x80, 0xBF) (b2 # rest)"
    unfolding utf8Decoder_lead u l using a by simp
  have s2: "utf8Decoder (a, 0, 1, 0x80, 0xBF) (b2 # rest)
          = (a * 64 + r) # utf8Decoder (0, 0, 0, 0x80, 0xBF) rest"
    using r by (subst utf8Decoder_continuation) (simp_all add: u l shift_in)
  show ?thesis unfolding s1 s2 ..
qed

lemma utf8Decoder_3:
  assumes u: "uint b1 = a + 224" "uint b2 = 128 + m" "uint b3 = 128 + r"
      and a: "0 \<le> a" "a \<le> 15" and m: "0 \<le> m" "m < 64" and r: "0 \<le> r" "r < 64"
      and lo: "a = 0 \<Longrightarrow> 32 \<le> m" and hi: "a = 13 \<Longrightarrow> m < 32"
  shows "utf8Decoder (0, 0, 0, 0x80, 0xBF) (b1 # b2 # b3 # rest)
           = ((a * 64 + m) * 64 + r) # utf8Decoder (0, 0, 0, 0x80, 0xBF) rest"
proof -
  have l: "(a + 224) AND 0xF = a" "(128 + m) AND 0x3F = m" "(128 + r) AND 0x3F = r"
    using a m r by (simp_all add: low_bits_of_sum)
  define lower :: int where "lower = (if a = 0 then 0xA0 else 0x80)"
  define upper :: int where "upper = (if a = 13 then 0x9F else 0xBF)"
  have s1: "utf8Decoder (0, 0, 0, 0x80, 0xBF) (b1 # b2 # b3 # rest)
          = utf8Decoder (a, 0, 2, lower, upper) (b2 # b3 # rest)"
    unfolding utf8Decoder_lead u l lower_def upper_def using a by simp
  have bd: "lower \<le> uint b2" "uint b2 \<le> upper"
    unfolding lower_def upper_def u using m lo hi by auto
  have s2: "utf8Decoder (a, 0, 2, lower, upper) (b2 # b3 # rest)
          = utf8Decoder (a * 64 + m, 1, 2, 0x80, 0xBF) (b3 # rest)"
    using bd m by (subst utf8Decoder_continuation) (simp_all add: u l shift_in)
  have s3: "utf8Decoder (a * 64 + m, 1, 2, 0x80, 0xBF) (b3 # rest)
          = ((a * 64 + m) * 64 + r) # utf8Decoder (0, 0, 0, 0x80, 0xBF) rest"
    using r by (subst utf8Decoder_continuation) (simp_all add: u l shift_in)
  show ?thesis unfolding s1 s2 s3 ..
qed

lemma utf8Decoder_4:
  assumes u: "uint b1 = a + 240" "uint b2 = 128 + m" "uint b3 = 128 + n" "uint b4 = 128 + r"
      and a: "0 \<le> a" "a \<le> 4" and m: "0 \<le> m" "m < 64" and n: "0 \<le> n" "n < 64"
      and r: "0 \<le> r" "r < 64"
      and lo: "a = 0 \<Longrightarrow> 16 \<le> m" and hi: "a = 4 \<Longrightarrow> m < 16"
  shows "utf8Decoder (0, 0, 0, 0x80, 0xBF) (b1 # b2 # b3 # b4 # rest)
           = (((a * 64 + m) * 64 + n) * 64 + r) # utf8Decoder (0, 0, 0, 0x80, 0xBF) rest"
proof -
  have l: "(a + 240) AND 0x7 = a" "(128 + m) AND 0x3F = m" "(128 + n) AND 0x3F = n"
      "(128 + r) AND 0x3F = r"
    using a m n r by (simp_all add: low_bits_of_sum)
  define lower :: int where "lower = (if a = 0 then 0x90 else 0x80)"
  define upper :: int where "upper = (if a = 4 then 0x8F else 0xBF)"
  have s1: "utf8Decoder (0, 0, 0, 0x80, 0xBF) (b1 # b2 # b3 # b4 # rest)
          = utf8Decoder (a, 0, 3, lower, upper) (b2 # b3 # b4 # rest)"
    unfolding utf8Decoder_lead u l lower_def upper_def using a by simp
  have bd: "lower \<le> uint b2" "uint b2 \<le> upper"
    unfolding lower_def upper_def u using m lo hi by auto
  have s2: "utf8Decoder (a, 0, 3, lower, upper) (b2 # b3 # b4 # rest)
          = utf8Decoder (a * 64 + m, 1, 3, 0x80, 0xBF) (b3 # b4 # rest)"
    using bd m by (subst utf8Decoder_continuation) (simp_all add: u l shift_in)
  have s3: "utf8Decoder (a * 64 + m, 1, 3, 0x80, 0xBF) (b3 # b4 # rest)
          = utf8Decoder ((a * 64 + m) * 64 + n, 2, 3, 0x80, 0xBF) (b4 # rest)"
    using n by (subst utf8Decoder_continuation) (simp_all add: u l shift_in numeral_2_eq_2)
  have s4: "utf8Decoder ((a * 64 + m) * 64 + n, 2, 3, 0x80, 0xBF) (b4 # rest)
          = (((a * 64 + m) * 64 + n) * 64 + r) # utf8Decoder (0, 0, 0, 0x80, 0xBF) rest"
    using r by (subst utf8Decoder_continuation) (simp_all add: u l shift_in)
  show ?thesis unfolding s1 s2 s3 s4 ..
qed

lemma divmod64:
  fixes c :: int
  shows "c = c div 64 * 64 + c mod 64" "0 \<le> c mod 64" "c mod 64 < 64"
  by simp_all

lemma div4096: "(c::int) div 4096 = c div 64 div 64"
  using zdiv_zmult2_eq [of 64 c 64] by simp

lemma div262144: "(c::int) div 262144 = c div 64 div 64 div 64"
  using zdiv_zmult2_eq [of 64 c 4096] div4096 [of "c div 64"]
  by (simp add: div4096)

lemma utf8_roundtrip_codePoint:
  assumes c: "0 \<le> c" "c \<le> 0x10FFFF" and s: "\<not> isSurrogate c"
  shows "utf8Decoder (0, 0, 0, 0x80, 0xBF) (utf8Encoder c @ rest)
           = c # utf8Decoder (0, 0, 0, 0x80, 0xBF) rest"
proof -
  define q1 where "q1 = c div 64"
  define r where "r = c mod 64"
  define q2 where "q2 = q1 div 64"
  define n where "n = q1 mod 64"
  define a where "a = q2 div 64"
  define m where "m = q2 mod 64"
  have e1: "c = q1 * 64 + r" "0 \<le> r" "r < 64"
    unfolding q1_def r_def by (rule divmod64)+
  have e2: "q1 = q2 * 64 + n" "0 \<le> n" "n < 64"
    unfolding q2_def n_def by (rule divmod64)+
  have e3: "q2 = a * 64 + m" "0 \<le> m" "m < 64"
    unfolding a_def m_def by (rule divmod64)+
  consider "c \<le> 0x7F" | "0x80 \<le> c" "c \<le> 0x7FF" | "0x800 \<le> c" "c \<le> 0xFFFF" | "0x10000 \<le> c"
    by linarith
  then show ?thesis
  proof cases
    case 1
    have "uint (word_of_int c :: byte) = c" using c 1 by (intro uint_byte) simp_all
    then show ?thesis unfolding utf8Encoder_1 [OF 1] append_Cons append_Nil
      using 1 by (rule utf8Decoder_1)
  next
    case 2
    have q: "2 \<le> q1" "q1 \<le> 31" using 2 e1 by linarith+
    have u: "uint (word_of_int (q1 + 192) :: byte) = q1 + 192"
        "uint (word_of_int (128 + r) :: byte) = 128 + r"
      using q e1 by (intro uint_byte; simp)+
    have "utf8Decoder (0, 0, 0, 0x80, 0xBF)
            (word_of_int (q1 + 192) # word_of_int (128 + r) # rest)
          = (q1 * 64 + r) # utf8Decoder (0, 0, 0, 0x80, 0xBF) rest"
      using u q e1(2,3) by (rule utf8Decoder_2)
    then show ?thesis
      unfolding utf8Encoder_2 [OF 2] append_Cons append_Nil q1_def [symmetric] r_def [symmetric]
        e1(1) [symmetric] .
  next
    case 3
    have q: "0 \<le> q2" "q2 \<le> 15" using 3 e1 e2 by linarith+
    have lo: "q2 = 0 \<Longrightarrow> 32 \<le> n" using 3 e1 e2 by linarith
    have hi: "q2 = 13 \<Longrightarrow> n < 32" using s 3 e1 e2 unfolding isSurrogate_def by linarith
    have u: "uint (word_of_int (q2 + 224) :: byte) = q2 + 224"
        "uint (word_of_int (128 + n) :: byte) = 128 + n"
        "uint (word_of_int (128 + r) :: byte) = 128 + r"
      using q e1 e2 by (intro uint_byte; simp)+
    have "utf8Decoder (0, 0, 0, 0x80, 0xBF)
            (word_of_int (q2 + 224) # word_of_int (128 + n) # word_of_int (128 + r) # rest)
          = ((q2 * 64 + n) * 64 + r) # utf8Decoder (0, 0, 0, 0x80, 0xBF) rest"
      using u q e2(2,3) e1(2,3) lo hi by (rule utf8Decoder_3)
    then show ?thesis
      unfolding utf8Encoder_3 [OF 3] append_Cons append_Nil div4096
        q1_def [symmetric] r_def [symmetric] q2_def [symmetric] n_def [symmetric]
        e2(1) [symmetric] e1(1) [symmetric] .
  next
    case 4
    have q: "0 \<le> a" "a \<le> 4" using 4 c e1 e2 e3 by linarith+
    have lo: "a = 0 \<Longrightarrow> 16 \<le> m" using 4 e1 e2 e3 by linarith
    have hi: "a = 4 \<Longrightarrow> m < 16" using c e1 e2 e3 by linarith
    have u: "uint (word_of_int (a + 240) :: byte) = a + 240"
        "uint (word_of_int (128 + m) :: byte) = 128 + m"
        "uint (word_of_int (128 + n) :: byte) = 128 + n"
        "uint (word_of_int (128 + r) :: byte) = 128 + r"
      using q e1 e2 e3 by (intro uint_byte; simp)+
    have "utf8Decoder (0, 0, 0, 0x80, 0xBF)
            (word_of_int (a + 240) # word_of_int (128 + m) # word_of_int (128 + n)
               # word_of_int (128 + r) # rest)
          = (((a * 64 + m) * 64 + n) * 64 + r) # utf8Decoder (0, 0, 0, 0x80, 0xBF) rest"
      using u q e3(2,3) e2(2,3) e1(2,3) lo hi by (rule utf8Decoder_4)
    then show ?thesis
      unfolding utf8Encoder_4 [OF 4] append_Cons append_Nil div4096 div262144
        q1_def [symmetric] r_def [symmetric] q2_def [symmetric] n_def [symmetric]
        a_def [symmetric] m_def [symmetric]
        e3(1) [symmetric] e2(1) [symmetric] e1(1) [symmetric] .
  qed
qed

lemma utf8_roundtrip:
  "scalarValues s \<Longrightarrow>
     utf8Decoder (0, 0, 0, 0x80, 0xBF) (TextEncoder_encode s @ rest)
       = s @ utf8Decoder (0, 0, 0, 0x80, 0xBF) rest"
proof (induction s)
  case Nil
  then show ?case by (simp add: TextEncoder_encode_def)
next
  case (Cons c s)
  then have c: "0 \<le> c" "c \<le> 0x10FFFF" "\<not> isSurrogate c" and s: "scalarValues s"
    by (simp_all add: scalarValues_def)
  have "TextEncoder_encode (c # s) @ rest = utf8Encoder c @ (TextEncoder_encode s @ rest)"
    using c(3) by (simp add: TextEncoder_encode_def)
  then show ?case
    using utf8_roundtrip_codePoint [OF c, of "TextEncoder_encode s @ rest"] Cons.IH [OF s]
    by simp
qed

lemma TextDecoder_TextEncoder_general:
  assumes "scalarValues s"
  shows "TextDecoder_decode (TextEncoder_encode s) = (if startsWithBOM s then tl s else s)"
proof -
  have "utf8Decoder (0, 0, 0, 0x80, 0xBF) (TextEncoder_encode s @ []) = s @ []"
    using utf8_roundtrip [OF assms, of "[]"] by (simp add: utf8Decoder.simps)
  then have "utf8Decoder (0, 0, 0, 0x80, 0xBF) (TextEncoder_encode s) = s" by simp
  then show ?thesis
    by (cases s) (simp_all add: TextDecoder_decode_def startsWithBOM_def)
qed

lemma TextDecoder_TextEncoder:
  "scalarValues s \<Longrightarrow> \<not> startsWithBOM s \<Longrightarrow> TextDecoder_decode (TextEncoder_encode s) = s"
  by (simp add: TextDecoder_TextEncoder_general)

subsection \<open>Framing and parsing\<close>

lemma length_setUint32: "length (setUint32 n) = 4"
  by (simp add: setUint32_def)

lemma getUint32_setUint32:
  assumes "n < 4294967296"
  shows "getUint32 (setUint32 n) = n"
proof -
  define x where "x = int n"
  have x: "0 \<le> x" "x < 4294967296" using assms unfolding x_def by simp_all
  have xm: "int n mod 4294967296 = x" using x unfolding x_def by simp
  have u: "[0..<4] = [0, 1, 2, 3::nat]" by (simp add: upt_rec)
  have s: "setUint32 n = [word_of_int x, word_of_int (x div 256), word_of_int (x div 65536),
      word_of_int (x div 16777216)]"
    unfolding setUint32_def u xm by simp
  have b: "\<And>y. uint (word_of_int y :: byte) = y mod 256"
    by (simp add: uint_word_of_int)
  define a where "a = x div 256"
  define b' where "b' = a div 256"
  define c where "c = b' div 256"
  have d1: "x div 65536 = b'"
    using zdiv_zmult2_eq [of 256 x 256] unfolding a_def b'_def by simp
  have d2: "x div 16777216 = c"
    using zdiv_zmult2_eq [of 256 "x div 256" 256] zdiv_zmult2_eq [of 65536 x 256]
    unfolding a_def b'_def c_def d1 [symmetric] by simp
  have c256: "c mod 256 = c"
  proof -
    have "c < 256" unfolding d2 [symmetric] using x by simp
    moreover have "0 \<le> c" unfolding d2 [symmetric] using x by simp
    ultimately show ?thesis by simp
  qed
  have e1: "x = x mod 256 + 256 * a" unfolding a_def by simp
  have e2: "a = a mod 256 + 256 * b'" unfolding b'_def by simp
  have e3: "b' = b' mod 256 + 256 * c" unfolding c_def by simp
  have "x mod 256 + 256 * (a mod 256) + 65536 * (b' mod 256) + 16777216 * (c mod 256) = x"
    unfolding c256 using e1 e2 e3 by linarith
  then have "getUint32 (setUint32 n) = nat x"
    unfolding s getUint32_def d1 d2 a_def [symmetric] by (simp add: b d1 d2 a_def [symmetric])
  then show ?thesis unfolding x_def by simp
qed

lemma parsePayload_createPayload:
  assumes d: "length (fileBytes file) < 4294967296"
      and m: "length (TextEncoder_encode (fileType_in file)) \<le> 255"
      and n: "length (TextEncoder_encode (fileName_in file)) \<le> 255"
  shows "parsePayload decompress (createPayload file @ pad)
           = Inr \<lparr>blob = fileBytes file,
                  fileName = TextDecoder_decode (TextEncoder_encode (fileName_in file)),
                  fileType = TextDecoder_decode (TextEncoder_encode (fileType_in file))\<rparr>"
proof -
  define mime where "mime = TextEncoder_encode (fileType_in file)"
  define name where "name = TextEncoder_encode (fileName_in file)"
  define dat where "dat = fileBytes file"
  define buffer where "buffer = createPayload file @ pad"
  have buf: "buffer = MAGIC_SNIC @ setUint32 (length dat) @ (of_nat (length mime) # mime)
      @ (of_nat (length name) # name) @ dat @ pad"
    unfolding buffer_def createPayload_def Let_def mime_def name_def dat_def by simp
  have lm: "unat (of_nat (length mime) :: byte) = length mime"
    using m unfolding mime_def by (simp add: unat_of_nat)
  have ln: "unat (of_nat (length name) :: byte) = length name"
    using n unfolding name_def by (simp add: unat_of_nat)
  have l4: "length MAGIC_SNIC = 4" by (simp add: MAGIC_SNIC_def)
  have s0: "slice buffer 0 4 = MAGIC_SNIC"
    unfolding buf slice_def using l4 by simp
  have ms: "magicMatches MAGIC_SNIC MAGIC_SNIC" "\<not> magicMatches MAGIC_SNIC MAGIC_SNIZ"
    by (simp_all add: magicMatches_unfold MAGIC_SNIC_def MAGIC_SNIZ_def)
  have s1: "slice buffer 4 (4 + 4) = setUint32 (length dat)"
    unfolding buf slice_def using l4 by (simp add: length_setUint32)
  have g: "getUint32 (setUint32 (length dat)) = length dat"
    using d unfolding dat_def by (rule getUint32_setUint32)
  have len: "length buffer = 10 + length mime + length name + length dat + length pad"
    unfolding buf using l4 by (simp add: length_setUint32)
  have b8: "buffer ! 8 = of_nat (length mime)"
    unfolding buf using l4 by (simp add: nth_append length_setUint32)
  have s2: "slice buffer 9 (9 + length mime) = mime"
    unfolding buf slice_def using l4 by (simp add: length_setUint32)
  have b9: "buffer ! (9 + length mime) = of_nat (length name)"
    unfolding buf using l4 by (simp add: nth_append length_setUint32)
  have s3: "slice buffer (10 + length mime) (10 + length mime + length name) = name"
    unfolding buf slice_def using l4 by (simp add: length_setUint32)
  have s4: "slice buffer (10 + length mime + length name)
       (min (10 + length mime + length name + length dat) (length buffer)) = dat"
    unfolding len unfolding buf slice_def using l4 by (simp add: length_setUint32)
  show ?thesis
    unfolding buffer_def [symmetric] parsePayload_def Let_def s0
    using ms s1 g b8 lm s2 b9 ln s3 s4 len
    unfolding mime_def [symmetric] name_def [symmetric] dat_def [symmetric]
    by (simp add: length_setUint32 add.commute add.left_commute)
qed

subsection \<open>The noise codec\<close>

lemma length_concat_blocks:
  "(\<And>i. i < n \<Longrightarrow> length (f i) = m) \<Longrightarrow> length (concat (map f [0..<n])) = n * m"
  by (induction n) simp_all

lemma concat_blocks_nth:
  assumes "\<And>i. i < n \<Longrightarrow> length (f i) = m" and "i < n" and "c < m"
  shows "concat (map f [0..<n]) ! (i * m + c) = f i ! c"
  using assms
proof (induction n)
  case 0
  then show ?case by simp
next
  case (Suc n)
  have l: "length (concat (map f [0..<n])) = n * m"
    using Suc.prems(1) by (intro length_concat_blocks) simp
  show ?case
  proof (cases "i < n")
    case True
    have "i * m + c < i * m + m" using Suc.prems(3) by simp
    also have "\<dots> = (i + 1) * m" by simp
    also have "\<dots> \<le> n * m" using True by (intro mult_le_mono1) simp
    finally have "i * m + c < n * m" .
    moreover have "concat (map f [0..<n]) ! (i * m + c) = f i ! c"
      using Suc.IH [OF _ True Suc.prems(3)] Suc.prems(1) by simp
    ultimately show ?thesis using l by (simp add: nth_append)
  next
    case False
    then have "i = n" using Suc.prems(2) by simp
    then show ?thesis using l Suc.prems by (simp add: nth_append)
  qed
qed

lemma px_append_zero: "px (buf @ replicate k 0) i = px buf i"
  by (auto simp: px_def nth_append)

lemma map_px_upt:
  assumes "length buf \<le> n"
  shows "map (px buf) [0..<n] = buf @ replicate (n - length buf) 0"
  using assms by (intro nth_equalityI) (auto simp: px_def nth_append)

lemma nextByte_px:
  "idx \<le> length buf \<Longrightarrow> nextByte buf idx = (px buf idx, min (idx + 1) (length buf))"
  by (auto simp: nextByte_def px_def)

lemma px_beyond: "length buf \<le> i \<Longrightarrow> px buf i = 0"
  by (simp add: px_def)

lemma noisePixels_blocks:
  "idx \<le> length buf \<Longrightarrow>
     noisePixels n buf idx
       = concat (map (\<lambda>i. [px buf (idx + 3 * i), px buf (idx + 3 * i + 1), px buf (idx + 3 * i + 2), 255]) [0..<n])"
proof (induction n arbitrary: idx)
  case 0
  then show ?case by simp
next
  case (Suc n)
  let ?g = "\<lambda>k. [px buf k, px buf (k + 1), px buf (k + 2), 255]"
  define idx' where "idx' = min (idx + 3) (length buf)"
  have i': "idx' \<le> length buf" unfolding idx'_def by simp
  have g: "px buf (min (idx + 1) (length buf)) = px buf (idx + 1)"
    "px buf (min (min (idx + 1) (length buf) + 1) (length buf)) = px buf (idx + 2)"
    by (auto simp: px_def min_def)
  have m3: "min (min (min (idx + 1) (length buf) + 1) (length buf) + 1) (length buf) = idx'"
    unfolding idx'_def using Suc.prems by (auto simp: min_def)
  have step: "noisePixels (Suc n) buf idx = ?g idx @ noisePixels n buf idx'"
    using Suc.prems g m3 by (simp add: nextByte_px Let_def)
  have same: "\<And>i. ?g (idx' + 3 * i) = ?g (idx + 3 * Suc i)"
    unfolding idx'_def by (auto simp: px_def min_def add.assoc)
  have "map (\<lambda>i. ?g (idx + 3 * i)) [0..<Suc n] = ?g idx # map (\<lambda>i. ?g (idx + 3 * Suc i)) [0..<n]"
    by (simp add: upt_conv_Cons map_Suc_upt [symmetric] del: upt_Suc)
  then show ?case
    unfolding step Suc.IH [OF i'] same by (simp del: upt_Suc)
qed

lemma nat_ceiling_ge: "x \<le> real (nat \<lceil>x\<rceil>)"
  by linarith

lemma real_nat_gap:
  fixes a b :: nat
  assumes "real b - real b / 2 ^ 53 \<le> real a" and "b < 2 ^ 53"
  shows "b \<le> a"
proof -
  have "real b / 2 ^ 53 < 1" using assms(2) by simp
  then have "real b - 1 < real a" using assms(1) by linarith
  then show ?thesis by linarith
qed

lemma noiseDimensions_cover:
  assumes len: "0 < len" "len < 2 ^ 52"
      and nd: "noiseDimensions len = (tp, w, h)"
  shows "len \<le> 3 * (w * h)"
proof -
  define a where "a = fl (real len / 3)"
  have tp: "tp = nat \<lceil>a\<rceil>" and w: "w = nat \<lceil>fl (sqrt (real tp))\<rceil>"
    and h: "h = nat \<lceil>fl (real tp / real w)\<rceil>"
    using nd unfolding noiseDimensions_def Let_def a_def by auto
  have abounds: "real len / 3 - real len / 3 / 2 ^ 53 \<le> a" "a \<le> real len / 3 + real len / 3 / 2 ^ 53"
    unfolding a_def by (rule fl_bounds; simp)+
  have "real len - real len / 2 ^ 53 \<le> 3 * a" using abounds(1) by simp
  also have "\<dots> \<le> real (3 * tp)" using nat_ceiling_ge [of a] unfolding tp by simp
  finally have l3: "len \<le> 3 * tp"
    using len(2) by (intro real_nat_gap) simp_all
  have tp1: "1 \<le> tp" using l3 len(1) by simp
  have "real len / 3 / 2 ^ 53 \<le> real len / 3" by (simp add: divide_le_eq)
  then have "a \<le> real len" using abounds(2) by linarith
  then have "a \<le> of_int (int len)" by simp
  then have "\<lceil>a\<rceil> \<le> int len" by (rule ceiling_le)
  then have tplen: "tp \<le> len" unfolding tp by linarith
  then have tpb: "tp < 2 ^ 53" using len(2) by simp
  define S where "S = sqrt (real tp)"
  have S1: "1 \<le> S" unfolding S_def using tp1 by simp
  then have "S / 2 ^ 53 < S" by (simp add: divide_less_eq)
  moreover have "S - S / 2 ^ 53 \<le> fl S" using S1 by (intro fl_bounds) simp
  ultimately have "0 < fl S" by linarith
  then have "0 < \<lceil>fl S\<rceil>" by linarith
  then have w1: "1 \<le> w" unfolding w S_def by linarith
  define b where "b = fl (real tp / real w)"
  have "real tp / real w - real tp / real w / 2 ^ 53 \<le> b"
    unfolding b_def by (rule fl_bounds) simp
  then have "real w * (real tp / real w - real tp / real w / 2 ^ 53) \<le> real w * b"
    by (intro mult_left_mono) simp_all
  moreover have "real w * (real tp / real w - real tp / real w / 2 ^ 53) = real tp - real tp / 2 ^ 53"
    using w1 by (simp add: field_simps)
  moreover have "real w * b \<le> real w * real h"
    using nat_ceiling_ge [of b] unfolding h b_def by (intro mult_left_mono) simp_all
  ultimately have "real tp - real tp / 2 ^ 53 \<le> real (w * h)" by simp
  then have "tp \<le> w * h" using tpb by (intro real_nat_gap)
  then show ?thesis using l3 by simp
qed

lemma length_createPayload:
  "length (createPayload file)
     = 10 + length (TextEncoder_encode (fileType_in file))
         + length (TextEncoder_encode (fileName_in file)) + length (fileBytes file)"
  by (simp add: createPayload_def Let_def MAGIC_SNIC_def length_setUint32)

lemma createPayload_magic:
  assumes "k < 4"
  shows "px (createPayload file) k = MAGIC_SNIC ! k"
proof -
  have "length MAGIC_SNIC = 4" by (simp add: MAGIC_SNIC_def)
  then have "createPayload file ! k = MAGIC_SNIC ! k"
    using assms unfolding createPayload_def Let_def by (simp add: nth_append)
  then show ?thesis using assms by (simp add: px_def length_createPayload)
qed

lemma rgb_blocks:
  "concat (map (\<lambda>i. [px buf (3 * i), px buf (3 * i + 1), px buf (3 * i + 2)]) [0..<n])
     = map (px buf) [0..<3 * n]"
proof (rule nth_equalityI)
  show "length (concat (map (\<lambda>i. [px buf (3 * i), px buf (3 * i + 1), px buf (3 * i + 2)]) [0..<n]))
      = length (map (px buf) [0..<3 * n])"
    by (simp add: length_concat_blocks [where m = 3])
next
  fix k assume "k < length (concat (map (\<lambda>i. [px buf (3 * i), px buf (3 * i + 1), px buf (3 * i + 2)]) [0..<n]))"
  then have k: "k < 3 * n" by (simp add: length_concat_blocks [where m = 3])
  then have i: "k div 3 < n" by auto
  have c: "k mod 3 < 3" by simp
  have kk: "k = k div 3 * 3 + k mod 3" by simp
  have "concat (map (\<lambda>i. [px buf (3 * i), px buf (3 * i + 1), px buf (3 * i + 2)]) [0..<n]) ! (k div 3 * 3 + k mod 3)
      = [px buf (3 * (k div 3)), px buf (3 * (k div 3) + 1), px buf (3 * (k div 3) + 2)] ! (k mod 3)"
    by (rule concat_blocks_nth [OF _ i c]) simp
  also have "\<dots> = px buf k"
  proof -
    consider "k mod 3 = 0" | "k mod 3 = 1" | "k mod 3 = 2" by linarith
    then show ?thesis
    proof cases
      case 1 then show ?thesis using kk by (simp add: mult.commute)
    next
      case 2 then show ?thesis using kk by (simp add: mult.commute)
    next
      case 3 then show ?thesis using kk by (simp add: mult.commute)
    qed
  qed
  finally show "concat (map (\<lambda>i. [px buf (3 * i), px buf (3 * i + 1), px buf (3 * i + 2)]) [0..<n]) ! k
      = map (px buf) [0..<3 * n] ! k"
    using k kk by simp
qed

lemma noisePixels_channel:
  assumes "i < n" "c < 3"
  shows "px (noisePixels n buf 0) (i * 4 + c) = px buf (3 * i + c)"
proof -
  let ?g = "\<lambda>i. [px buf (0 + 3 * i), px buf (0 + 3 * i + 1), px buf (0 + 3 * i + 2), 255]"
  have np: "noisePixels n buf 0 = concat (map ?g [0..<n])"
    by (rule noisePixels_blocks) simp
  have l: "length (noisePixels n buf 0) = n * 4"
    unfolding np by (rule length_concat_blocks) simp
  have "i * 4 + c < n * 4" using assms by simp
  then have "px (noisePixels n buf 0) (i * 4 + c) = noisePixels n buf 0 ! (i * 4 + c)"
    by (simp add: px_def l)
  also have "\<dots> = ?g i ! c"
    unfolding np using assms by (intro concat_blocks_nth) simp_all
  also have "\<dots> = px buf (3 * i + c)"
  proof -
    consider "c = 0" | "c = 1" | "c = 2" using assms(2) by linarith
    then show ?thesis by cases simp_all
  qed
  finally show ?thesis .
qed

lemma noise_decode_encode:
  assumes d: "length (fileBytes file) \<le> 10485760"
      and m: "length (TextEncoder_encode (fileType_in file)) \<le> 255"
      and n: "length (TextEncoder_encode (fileName_in file)) \<le> 255"
  shows "decodeImageToFile decompress (encodeFileToImage file)
           = Inr \<lparr>blob = fileBytes file,
                  fileName = TextDecoder_decode (TextEncoder_encode (fileName_in file)),
                  fileType = TextDecoder_decode (TextEncoder_encode (fileType_in file))\<rparr>"
proof -
  define buf where "buf = createPayload file"
  obtain tp w h where nd: "noiseDimensions (length buf) = (tp, w, h)"
    by (cases "noiseDimensions (length buf)") auto
  have len: "10 \<le> length buf" "length buf < 2 ^ 52"
    using d m n unfolding buf_def length_createPayload by simp_all
  have cover: "length buf \<le> 3 * (w * h)"
    using len nd by (intro noiseDimensions_cover [where tp = tp]) auto
  then have wh: "4 \<le> w * h" using len(1) by simp
  define pixels where "pixels = noisePixels (w * h) buf 0"
  have img: "encodeFileToImage file = \<lparr>imgWidth = w, imgHeight = h, imgData = pixels\<rparr>"
    unfolding encodeFileToImage_def Let_def buf_def [symmetric] nd pixels_def by simp
  have ch: "\<And>i c. i < w * h \<Longrightarrow> c < 3 \<Longrightarrow> px pixels (i * 4 + c) = px buf (3 * i + c)"
    unfolding pixels_def by (rule noisePixels_channel)
  have p0: "px pixels 0 = MAGIC_SNIC ! 0" "px pixels 1 = MAGIC_SNIC ! 1" "px pixels 2 = MAGIC_SNIC ! 2"
    "px pixels 4 = MAGIC_SNIC ! 3"
  proof -
    have z: "0 < w * h" "1 < w * h" using wh by linarith+
    show "px pixels 0 = MAGIC_SNIC ! 0"
      using ch [OF z(1), of 0] by (simp add: buf_def createPayload_magic)
    show "px pixels 1 = MAGIC_SNIC ! 1"
      using ch [OF z(1), of 1] by (simp add: buf_def createPayload_magic)
    show "px pixels 2 = MAGIC_SNIC ! 2"
      using ch [OF z(1), of 2] by (simp add: buf_def createPayload_magic numeral_2_eq_2)
    show "px pixels 4 = MAGIC_SNIC ! 3"
      using ch [OF z(2), of 0] by (simp add: buf_def createPayload_magic)
  qed
  have raw: "magicMatches [px pixels 0, px pixels 1, px pixels 2, px pixels 4] MAGIC_SNIC"
    unfolding p0 by (simp add: magicMatches_unfold)
  have "concat (map (\<lambda>i. let idx = i * 4 in [px pixels idx, px pixels (idx + 1), px pixels (idx + 2)]) [0..<w * h])
      = concat (map (\<lambda>i. [px buf (3 * i), px buf (3 * i + 1), px buf (3 * i + 2)]) [0..<w * h])"
  proof -
    have "\<And>i. i < w * h \<Longrightarrow> [px pixels (i * 4), px pixels (i * 4 + 1), px pixels (i * 4 + 2)]
        = [px buf (3 * i), px buf (3 * i + 1), px buf (3 * i + 2)]"
      using ch [of _ 0] ch [of _ 1] ch [of _ 2] by simp
    then show ?thesis by (auto simp: Let_def intro!: arg_cong [where f = concat])
  qed
  also have "\<dots> = buf @ replicate (3 * (w * h) - length buf) 0"
    unfolding rgb_blocks by (rule map_px_upt [OF cover])
  finally have ex: "decodeStandardImage decompress pixels w h
      = parsePayload decompress (buf @ replicate (3 * (w * h) - length buf) 0)"
    unfolding decodeStandardImage_def by simp
  have "parsePayload decompress (buf @ replicate (3 * (w * h) - length buf) 0)
      = Inr \<lparr>blob = fileBytes file,
             fileName = TextDecoder_decode (TextEncoder_encode (fileName_in file)),
             fileType = TextDecoder_decode (TextEncoder_encode (fileType_in file))\<rparr>"
    unfolding buf_def using d m n by (intro parsePayload_createPayload) simp_all
  then show ?thesis
    unfolding img decodeImageToFile_def Let_def using raw ex by simp
qed

lemma TextEncoder_encode_ascii:
  "TextEncoder_encode [] = []"
  "0 \<le> c \<Longrightarrow> c \<le> 0x7F \<Longrightarrow> TextEncoder_encode (c # s) = word_of_int c # TextEncoder_encode s"
  by (simp_all add: TextEncoder_encode_def utf8Encoder_def isSurrogate_def)

lemma TextEncoder_encode_bom: "TextEncoder_encode [0xFEFF, 0x61] = [0xEF, 0xBB, 0xBF, 0x61]"
  by (simp add: TextEncoder_encode_def utf8Encoder_def isSurrogate_def drop_bit_eq_div
      continuation_byte upt_rec)

lemma TextDecoder_decode_surrogate: "TextDecoder_decode (TextEncoder_encode [0xD800]) = [0xFFFD]"
proof -
  have "TextEncoder_encode [0xD800] = TextEncoder_encode [0xFFFD]"
    by (simp add: TextEncoder_encode_def isSurrogate_def)
  then show ?thesis
    by (simp add: TextDecoder_TextEncoder_general scalarValues_def isSurrogate_def startsWithBOM_def)
qed

lemma TextDecoder_decode_bom: "TextDecoder_decode (TextEncoder_encode [0xFEFF, 0x61]) = [0x61]"
  by (simp add: TextDecoder_TextEncoder_general scalarValues_def isSurrogate_def startsWithBOM_def)

text \<open>
  C2. A file of at most 10 MB (\<open>10 * 1024 * 1024\<close> bytes) whose type and name encode to
  at most 255 bytes each, are strings of scalar values and do not begin with U+FEFF survives
  the noise codec: decoding the image that encodeFileToImage produces returns the bytes,
  the name and the type of the file.
\<close>

theorem noise_roundtrip:
  assumes d: "length (fileBytes file) \<le> 10485760"
      and m: "length (TextEncoder_encode (fileType_in file)) \<le> 255"
      and n: "length (TextEncoder_encode (fileName_in file)) \<le> 255"
      and wm: "scalarValues (fileType_in file)" "\<not> startsWithBOM (fileType_in file)"
      and wn: "scalarValues (fileName_in file)" "\<not> startsWithBOM (fileName_in file)"
  shows "decodeImageToFile decompress (encodeFileToImage file)
           = Inr \<lparr>blob = fileBytes file, fileName = fileName_in file, fileType = fileType_in file\<rparr>"
  unfolding noise_decode_encode [OF d m n] TextDecoder_TextEncoder [OF wm] TextDecoder_TextEncoder [OF wn] ..

theorem noise_roundtrip_witness:
  "length [1, 2, 3 :: byte] \<le> 10485760
   \<and> length (TextEncoder_encode (codePoints ''a/b'')) \<le> 255
   \<and> length (TextEncoder_encode (codePoints ''c'')) \<le> 255
   \<and> scalarValues (codePoints ''a/b'') \<and> \<not> startsWithBOM (codePoints ''a/b'')
   \<and> scalarValues (codePoints ''c'') \<and> \<not> startsWithBOM (codePoints ''c'')
   \<and> decodeImageToFile (\<lambda>d. None)
        (encodeFileToImage \<lparr>fileBytes = [1, 2, 3], fileType_in = codePoints ''a/b'', fileName_in = codePoints ''c''\<rparr>)
      = Inr \<lparr>blob = [1, 2, 3], fileName = codePoints ''c'', fileType = codePoints ''a/b''\<rparr>"
  using noise_roundtrip [of "\<lparr>fileBytes = [1, 2, 3], fileType_in = codePoints ''a/b'', fileName_in = codePoints ''c''\<rparr>"
      "\<lambda>d. None"]
  by (simp add: codePoints_def TextEncoder_encode_ascii scalarValues_def isSurrogate_def startsWithBOM_def)

text \<open>
  The name \<open>U+FEFF a\<close> encodes to four bytes, and the decoder drops its first code point:
  the noise codec returns the name \<open>a\<close>.
\<close>

theorem noise_roundtrip_bom:
  "length [1, 2, 3 :: byte] \<le> 10485760
   \<and> length (TextEncoder_encode (codePoints ''a/b'')) \<le> 255
   \<and> length (TextEncoder_encode [0xFEFF, 0x61]) \<le> 255
   \<and> decodeImageToFile (\<lambda>d. None)
        (encodeFileToImage \<lparr>fileBytes = [1, 2, 3], fileType_in = codePoints ''a/b'', fileName_in = [0xFEFF, 0x61]\<rparr>)
      = Inr \<lparr>blob = [1, 2, 3], fileName = [0x61], fileType = codePoints ''a/b''\<rparr>"
proof -
  have t: "TextDecoder_decode (TextEncoder_encode (codePoints ''a/b'')) = codePoints ''a/b''"
    by (rule TextDecoder_TextEncoder)
       (simp_all add: codePoints_def scalarValues_def isSurrogate_def startsWithBOM_def)
  have l: "length (TextEncoder_encode (codePoints ''a/b'')) \<le> 255"
      "length (TextEncoder_encode [0xFEFF, 0x61]) \<le> 255"
    by (simp_all add: codePoints_def TextEncoder_encode_ascii TextEncoder_encode_bom)
  have "decodeImageToFile (\<lambda>d. None)
        (encodeFileToImage \<lparr>fileBytes = [1, 2, 3], fileType_in = codePoints ''a/b'', fileName_in = [0xFEFF, 0x61]\<rparr>)
      = Inr \<lparr>blob = [1, 2, 3], fileName = [0x61], fileType = codePoints ''a/b''\<rparr>"
    using noise_decode_encode [of "\<lparr>fileBytes = [1, 2, 3], fileType_in = codePoints ''a/b'', fileName_in = [0xFEFF, 0x61]\<rparr>"
        "\<lambda>d. None"] l
    by (simp add: t TextDecoder_decode_bom)
  then show ?thesis using l by simp
qed

lemma noiseDimensions_25: "noiseDimensions 25 = (9, 3, 3)"
proof -
  have b: "(25 / 3 :: real) - (25 / 3) / 2 ^ 53 \<le> fl (25 / 3)" "fl (25 / 3) \<le> (25 / 3 :: real) + (25 / 3) / 2 ^ 53"
    using fl_bounds [of "25 / 3"] by simp_all
  have "\<lceil>fl (25 / 3)\<rceil> = 9"
    by (rule ceiling_unique) (use b in simp_all)
  then have t: "nat \<lceil>fl (real 25 / 3)\<rceil> = 9" by simp
  have s: "sqrt (real 9) = 3" by (simp add: real_sqrt_unique)
  have f3: "fl 3 = 3" using fl_of_int [of 3] by simp
  have w: "nat \<lceil>fl (sqrt (real 9))\<rceil> = 3" unfolding s f3 by simp
  have h: "nat \<lceil>fl (real 9 / real 3)\<rceil> = 3" using f3 by simp
  show ?thesis unfolding noiseDimensions_def Let_def t w h by simp
qed

text \<open>
  C9. The empty file of type \<open>audio/mpeg\<close> named \<open>a.mp3\<close> is framed in 25 bytes; the
  noise encoder computes 9 pixels in total, a width of 3 and a height of 3; decoding the
  image returns empty data with the same type and name.
\<close>

theorem noise_scenario:
  "length (createPayload scenarioFile) = 25
   \<and> noiseDimensions (length (createPayload scenarioFile)) = (9, 3, 3)
   \<and> imgWidth (encodeFileToImage scenarioFile) = 3
   \<and> imgHeight (encodeFileToImage scenarioFile) = 3
   \<and> decodeImageToFile decompress (encodeFileToImage scenarioFile)
       = Inr \<lparr>blob = [], fileName = codePoints ''a.mp3'', fileType = codePoints ''audio/mpeg''\<rparr>"
proof -
  have l: "length (createPayload scenarioFile) = 25"
    by (simp add: length_createPayload scenarioFile_def codePoints_def TextEncoder_encode_ascii)
  have e: "encodeFileToImage scenarioFile
      = \<lparr>imgWidth = 3, imgHeight = 3, imgData = noisePixels 9 (createPayload scenarioFile) 0\<rparr>"
    by (simp add: encodeFileToImage_def l noiseDimensions_25)
  have d: "decodeImageToFile decompress
       \<lparr>imgWidth = 3, imgHeight = 3, imgData = noisePixels 9 (createPayload scenarioFile) 0\<rparr>
       = Inr \<lparr>blob = [], fileName = codePoints ''a.mp3'', fileType = codePoints ''audio/mpeg''\<rparr>"
    by code_simp
  show ?thesis using l e d noiseDimensions_25 by simp
qed

subsection \<open>The capacity planner\<close>

lemma ulp1_range: "0 < ulp1" "ulp1 < 1" "ulp1 \<le> 1"
  by (simp_all add: ulp1_def)

lemma fl_ge: "0 \<le> x \<Longrightarrow> ulp1 * x \<le> fl x"
  using fl_bounds(1) [of x] by (simp add: ulp1_def algebra_simps)

lemma ceil_fl_ge: "0 \<le> x \<Longrightarrow> ulp1 * x \<le> of_int \<lceil>fl x\<rceil>"
  using fl_ge [of x] le_of_int_ceiling [of "fl x"] by linarith

lemma int_gap:
  fixes a b :: int
  assumes "ulp1 * of_int b \<le> of_int a" and "b < 2 ^ 53" and "0 \<le> b"
  shows "b \<le> a"
proof -
  have "real_of_int b / 2 ^ 53 < 1" using assms(2) by simp
  moreover have "ulp1 * of_int b = of_int b - real_of_int b / 2 ^ 53"
    by (simp add: ulp1_def algebra_simps)
  ultimately have "real_of_int b - 1 < of_int a" using assms(1) by linarith
  then show ?thesis by linarith
qed

lemma ulp1_pow5: "1 - 5 / 2 ^ 53 \<le> ulp1 ^ 5"
proof -
  have "1 + real 5 * (- (1 / 2 ^ 53)) \<le> (1 + (- (1 / 2 ^ 53))) ^ 5"
    by (rule Bernoulli_inequality) simp
  then show ?thesis by (simp add: ulp1_def)
qed

lemma scaled_ge:
  assumes s: "1 \<le> s" and w: "w < 2 ^ 53"
  shows "w \<le> nat \<lceil>fl (real w * s)\<rceil>"
proof -
  have "0 \<le> real w * s" using s by simp
  then have "ulp1 * (real w * s) \<le> of_int \<lceil>fl (real w * s)\<rceil>" by (rule ceil_fl_ge)
  moreover have "ulp1 * real w * 1 \<le> ulp1 * real w * s"
    using s ulp1_range(1) by (intro mult_left_mono) simp_all
  ultimately have "ulp1 * of_int (int w) \<le> of_int \<lceil>fl (real w * s)\<rceil>"
    by (simp add: mult.assoc)
  then have "int w \<le> \<lceil>fl (real w * s)\<rceil>"
    by (rule int_gap) (use w in simp_all)
  then show ?thesis by linarith
qed

lemma scaled_area:
  assumes s0: "0 \<le> s0" "s0 \<le> s"
  shows "ulp1 ^ 2 * (s0 ^ 2 * (real w * real h))
           \<le> real (nat \<lceil>fl (real w * s)\<rceil> * nat \<lceil>fl (real h * s)\<rceil>)"
proof -
  define a where "a = real (nat \<lceil>fl (real w * s)\<rceil>)"
  define b where "b = real (nat \<lceil>fl (real h * s)\<rceil>)"
  have s: "0 \<le> s" using s0 by simp
  have ws: "0 \<le> real w * s" "0 \<le> real h * s" using s by simp_all
  have "ulp1 * (real w * s) \<le> of_int \<lceil>fl (real w * s)\<rceil>" using ws(1) by (rule ceil_fl_ge)
  then have a1: "ulp1 * (real w * s) \<le> a" unfolding a_def by linarith
  have "ulp1 * (real h * s) \<le> of_int \<lceil>fl (real h * s)\<rceil>" using ws(2) by (rule ceil_fl_ge)
  then have b1: "ulp1 * (real h * s) \<le> b" unfolding b_def by linarith
  have "ulp1 * (real w * s0) \<le> ulp1 * (real w * s)"
    using s0 ulp1_range(1) by (intro mult_left_mono) simp_all
  then have a2: "ulp1 * (real w * s0) \<le> a" using a1 by linarith
  have "ulp1 * (real h * s0) \<le> ulp1 * (real h * s)"
    using s0 ulp1_range(1) by (intro mult_left_mono) simp_all
  then have b2: "ulp1 * (real h * s0) \<le> b" using b1 by linarith
  have a0: "0 \<le> a" unfolding a_def by simp
  have l0: "0 \<le> ulp1 * (real h * s0)" using s0(1) ulp1_range(1) by simp
  have "(ulp1 * (real w * s0)) * (ulp1 * (real h * s0)) \<le> a * b"
    using a2 b2 a0 l0 by (rule mult_mono)
  moreover have "(ulp1 * (real w * s0)) * (ulp1 * (real h * s0)) = ulp1 ^ 2 * (s0 ^ 2 * (real w * real h))"
    by (simp add: power2_eq_square algebra_simps)
  ultimately show ?thesis unfolding a_def b_def by simp
qed

lemma sqrt_scale:
  assumes x: "0 \<le> x"
  shows "0 \<le> fl (sqrt (fl x))" and "ulp1 ^ 3 * x \<le> (fl (sqrt (fl x))) ^ 2"
proof -
  define q where "q = fl x"
  have q0: "0 \<le> q" unfolding q_def using x by (rule fl_nonneg)
  have q1: "ulp1 * x \<le> q" unfolding q_def using x by (rule fl_ge)
  have s1: "ulp1 * sqrt q \<le> fl (sqrt q)" by (rule fl_ge) (use q0 in simp)
  show "0 \<le> fl (sqrt (fl x))" unfolding q_def [symmetric] by (rule fl_nonneg) (use q0 in simp)
  have "0 \<le> ulp1 * sqrt q" using q0 ulp1_range(1) by simp
  then have "(ulp1 * sqrt q) ^ 2 \<le> (fl (sqrt q)) ^ 2" using s1 by (intro power_mono) simp_all
  moreover have "(ulp1 * sqrt q) ^ 2 = ulp1 ^ 2 * q" using q0 by (simp add: power_mult_distrib)
  moreover have "ulp1 ^ 2 * (ulp1 * x) \<le> ulp1 ^ 2 * q" using q1 by (intro mult_left_mono) simp_all
  moreover have "ulp1 ^ 2 * (ulp1 * x) = ulp1 ^ 3 * x" by (simp add: power3_eq_cube power2_eq_square)
  ultimately show "ulp1 ^ 3 * x \<le> (fl (sqrt (fl x))) ^ 2" unfolding q_def by (simp only:)
qed

lemma desired_ge:
  assumes x: "0 \<le> x" "x < 2 ^ 53" and k: "0 < k"
  shows "x \<le> int k * \<lceil>fl (of_int x / real k)\<rceil>"
proof -
  have "0 \<le> real_of_int x / real k" using x k by simp
  then have "ulp1 * (of_int x / real k) \<le> of_int \<lceil>fl (of_int x / real k)\<rceil>"
    by (rule ceil_fl_ge)
  then have "real k * (ulp1 * (of_int x / real k)) \<le> real k * of_int \<lceil>fl (of_int x / real k)\<rceil>"
    by (rule mult_left_mono) simp
  moreover have "real k * (ulp1 * (of_int x / real k)) = ulp1 * of_int x"
    using k by simp
  ultimately have "ulp1 * of_int x \<le> of_int (int k * \<lceil>fl (of_int x / real k)\<rceil>)"
    by simp
  then show ?thesis by (rule int_gap) (use x in simp_all)
qed

lemma desired_le:
  assumes x: "0 \<le> x" and k: "1 \<le> k"
  shows "\<lceil>fl (of_int x / real k)\<rceil> \<le> 2 * x + 1" and "0 \<le> \<lceil>fl (of_int x / real k)\<rceil>"
proof -
  define y where "y = real_of_int x / real k"
  have y0: "0 \<le> y" unfolding y_def using x k by simp
  have "y \<le> real_of_int x" unfolding y_def using x k by (simp add: divide_le_eq mult_le_cancel_left1)
  moreover have "y / 2 ^ 53 \<le> y" using y0 by (simp add: divide_le_eq)
  moreover have "fl y \<le> y + y / 2 ^ 53" using y0 by (rule fl_bounds)
  ultimately have "fl y \<le> 2 * real_of_int x" by linarith
  then have "fl y \<le> of_int (2 * x)" by simp
  then have "\<lceil>fl y\<rceil> \<le> 2 * x" by (rule ceiling_le)
  then show "\<lceil>fl (of_int x / real k)\<rceil> \<le> 2 * x + 1" unfolding y_def by simp
  have "0 \<le> fl y" using y0 by (rule fl_nonneg)
  then show "0 \<le> \<lceil>fl (of_int x / real k)\<rceil>" unfolding y_def by linarith
qed

lemma planCanvas_capacity:
  assumes wh: "32 < W * H" "W * H < 2 ^ 53"
      and tb: "1 \<le> targetBPC" "targetBPC \<le> 7"
      and T: "T < 2 ^ 35"
      and pc: "planCanvas T W H targetBPC = (scale, newW, newH, finalBPC)"
  shows "finalBPC = targetBPC \<and> W \<le> newW \<and> H \<le> newH
         \<and> int T \<le> 3 * int targetBPC * (int (newW * newH) - 32)"
proof -
  define A :: int where "A = int (W * H) - 32"
  define mr where "mr = minRequiredBPC T W H"
  define dc where "dc = \<lceil>fl (real T / real targetBPC)\<rceil>"
  define d where "d = desiredPixels T targetBPC"
  define s0 where "s0 = fl (sqrt (fl (of_int d / real (W * H))))"
  define s where "s = planScale T W H targetBPC"
  have mr: "mr = \<lceil>fl (real T / of_int (A * 3))\<rceil>"
    unfolding mr_def minRequiredBPC_def Let_def A_def RESERVED_HEADER_PIXELS_def by simp
  have d: "d = \<lceil>fl (of_int dc / 3)\<rceil> + 32"
    unfolding d_def desiredPixels_def Let_def dc_def RESERVED_HEADER_PIXELS_def by simp
  have res: "newW = nat \<lceil>fl (real W * s)\<rceil>" "newH = nat \<lceil>fl (real H * s)\<rceil>" "finalBPC = targetBPC"
    using pc unfolding planCanvas_def Let_def s_def by auto
  have s_ge1: "1 \<le> s" unfolding s_def planScale_def Let_def by simp
  have s0s: "mr > int targetBPC \<Longrightarrow> s0 \<le> s"
    unfolding s_def planScale_def Let_def mr_def s0_def d_def by simp
  have Apos: "0 < A" unfolding A_def using wh(1) by linarith
  have W1: "1 \<le> W" "1 \<le> H" using wh(1) by (cases W; cases H; simp)+
  have "W * 1 \<le> W * H" using W1(2) by (rule mult_le_mono2)
  moreover have "1 * H \<le> W * H" using W1(1) by (rule mult_le_mono1)
  ultimately have "W \<le> W * H" "H \<le> W * H" by (simp_all only: mult_1_right mult_1)
  then have Wb: "W < 2 ^ 53" "H < 2 ^ 53" using wh(2) by linarith+
  have nW: "W \<le> newW" unfolding res by (rule scaled_ge [OF s_ge1 Wb(1)])
  have nH: "H \<le> newH" unfolding res by (rule scaled_ge [OF s_ge1 Wb(2)])
  have area: "W * H \<le> newW * newH" using nW nH by (rule mult_le_mono)
  then have big: "32 < newW * newH" using wh(1) by simp
  have areaI: "int (W * H) \<le> int (newW * newH)" using area by (simp only: of_nat_le_iff)
  have fits: "int T \<le> 3 * int targetBPC * (int (newW * newH) - 32)"
  proof (cases "mr > int targetBPC")
    case False
    have x0: "0 \<le> real T / of_int (A * 3)" using Apos by simp
    have "ulp1 * (real T / of_int (A * 3)) \<le> of_int mr"
      unfolding mr using x0 by (rule ceil_fl_ge)
    also have "\<dots> \<le> real targetBPC" using False by simp
    finally have "of_int (A * 3) * (ulp1 * (real T / of_int (A * 3))) \<le> of_int (A * 3) * real targetBPC"
      using Apos by (intro mult_left_mono) simp_all
    moreover have "of_int (A * 3) * (ulp1 * (real T / of_int (A * 3))) = ulp1 * real T"
      using Apos by simp
    ultimately have "ulp1 * of_int (int T) \<le> of_int (A * 3 * int targetBPC)" by simp
    then have "int T \<le> A * 3 * int targetBPC"
      by (rule int_gap) (use T in simp_all)
    also have "\<dots> \<le> (int (newW * newH) - 32) * 3 * int targetBPC"
      using areaI unfolding A_def by (intro mult_right_mono) (simp_all del: of_nat_mult)
    finally show ?thesis by (simp add: algebra_simps)
  next
    case True
    have T0: "0 \<le> int T" "int T < 2 ^ 53" using T by simp_all
    have tb0: "0 < targetBPC" using tb by simp
    have dcT: "int T \<le> int targetBPC * dc"
      using desired_ge [OF T0 tb0] unfolding dc_def by simp
    have dc0: "0 \<le> dc" and dcu: "dc \<le> 2 * int T + 1"
      using desired_le [of "int T" targetBPC] tb unfolding dc_def by simp_all
    have dcb: "dc < 2 ^ 53" using dcu T by simp
    have ddc: "dc \<le> 3 * (d - 32)"
      using desired_ge [OF dc0 dcb, of 3] unfolding d by simp
    have du: "d \<le> 2 * dc + 33" and d0: "32 \<le> d"
      using desired_le [OF dc0, of 3] unfolding d by simp_all
    have db: "5 * d < 2 ^ 53" using du dcu T by simp
    have x0: "0 \<le> real_of_int d / real (W * H)" using d0 by simp
    have s00: "0 \<le> s0" unfolding s0_def using x0 by (rule sqrt_scale)
    have s0sq: "ulp1 ^ 3 * (of_int d / real (W * H)) \<le> s0 ^ 2" unfolding s0_def using x0 by (rule sqrt_scale)
    have ar: "ulp1 ^ 2 * (s0 ^ 2 * (real W * real H)) \<le> real (newW * newH)"
      unfolding res by (rule scaled_area [OF s00 s0s [OF True]])
    have whp: "0 < real W * real H" using W1 by simp
    have "ulp1 ^ 3 * (of_int d / real (W * H)) * (real W * real H) \<le> s0 ^ 2 * (real W * real H)"
      using s0sq whp by (intro mult_right_mono) simp_all
    moreover have "ulp1 ^ 3 * (of_int d / real (W * H)) * (real W * real H) = ulp1 ^ 3 * of_int d"
    proof -
      define P where "P = real W * real H"
      have "real (W * H) = P" unfolding P_def by simp
      moreover have "P \<noteq> 0" unfolding P_def using whp by linarith
      ultimately have "real (W * H) = P" "P \<noteq> 0" by blast+
      then show ?thesis unfolding P_def [symmetric] by simp
    qed
    ultimately have "ulp1 ^ 3 * of_int d \<le> s0 ^ 2 * (real W * real H)" by simp
    then have "ulp1 ^ 2 * (ulp1 ^ 3 * of_int d) \<le> ulp1 ^ 2 * (s0 ^ 2 * (real W * real H))"
      by (intro mult_left_mono) simp_all
    moreover have "ulp1 ^ 2 * (ulp1 ^ 3 * of_int d) = ulp1 ^ 5 * of_int d"
      by (simp add: power_add [symmetric] mult.assoc [symmetric])
    ultimately have u5: "ulp1 ^ 5 * of_int d \<le> real (newW * newH)" using ar by linarith
    have "(1 - 5 / 2 ^ 53) * real_of_int d \<le> ulp1 ^ 5 * of_int d"
      using ulp1_pow5 d0 by (intro mult_right_mono) simp_all
    moreover have "(1 - 5 / 2 ^ 53) * real_of_int d = of_int d - of_int (5 * d) / 2 ^ 53"
      by (simp add: algebra_simps)
    moreover have "real_of_int (5 * d) / 2 ^ 53 < 1" using db by simp
    ultimately have "real_of_int d - 1 < real (newW * newH)" using u5 by linarith
    then have dn: "d \<le> int (newW * newH)" by linarith
    have "int T \<le> int targetBPC * (3 * (d - 32))"
      using dcT ddc tb0 by (meson mult_left_mono of_nat_0_le_iff order_trans)
    also have "\<dots> \<le> int targetBPC * (3 * (int (newW * newH) - 32))"
      using dn by (intro mult_left_mono) simp_all
    finally show ?thesis by (simp add: algebra_simps)
  qed
  show ?thesis using res(3) nW nH fits by simp
qed

text \<open>
  C6. For a cover of more than 32 pixels and a requested density in \<open>[1, 7]\<close>, the
  planner keeps the density (\<open>finalBPC = targetBPC\<close>) and chooses dimensions at which the
  payload fits at that density: the minimum density recomputed at the scaled dimensions,
  \<open>ceil (T / ((newW * newH - 32) * 3))\<close>, is at most \<open>targetBPC\<close>. The payload has fewer
  than \<open>2 ^ 35\<close> bits (its byte length fits the 32-bit length field) and the cover fewer
  than \<open>2 ^ 53\<close> pixels, the range in which the integer arithmetic of doubles is exact.
\<close>

theorem planCanvas_fits:
  assumes wh: "32 < W * H" "W * H < 2 ^ 53"
      and tb: "1 \<le> targetBPC" "targetBPC \<le> 7"
      and T: "T < 2 ^ 35"
      and pc: "planCanvas T W H targetBPC = (scale, newW, newH, finalBPC)"
  shows "finalBPC = targetBPC \<and> 32 < newW * newH
         \<and> \<lceil>real T / real ((newW * newH - 32) * 3)\<rceil> \<le> int targetBPC"
proof -
  have cap: "finalBPC = targetBPC" "W \<le> newW" "H \<le> newH"
    "int T \<le> 3 * int targetBPC * (int (newW * newH) - 32)"
    using planCanvas_capacity [OF assms] by simp_all
  have "W * H \<le> newW * newH" using cap(2,3) by (rule mult_le_mono)
  then have big: "32 < newW * newH" using wh(1) by simp
  define N where "N = (newW * newH - 32) * 3"
  have N: "int N = 3 * (int (newW * newH) - 32)" "0 < N" unfolding N_def using big by simp_all
  have "int T \<le> int targetBPC * int N" using cap(4) unfolding N by (simp add: algebra_simps)
  then have "real T \<le> real targetBPC * real N"
    by (metis of_nat_le_iff of_nat_mult)
  then have "real T / real N \<le> of_int (int targetBPC)"
    using N(2) by (simp add: divide_le_eq)
  then have "\<lceil>real T / real N\<rceil> \<le> int targetBPC" by (rule ceiling_le)
  then show ?thesis using cap(1) big unfolding N_def by simp
qed

theorem planCanvas_fits_witness:
  "(32::nat) < 8 * 8 \<and> (8::nat) * 8 < 2 ^ 53 \<and> (1::nat) \<le> 3 \<and> (3::nat) \<le> 7 \<and> (200::nat) < 2 ^ 35
   \<and> (\<exists>scale newW newH. planCanvas 200 8 8 3 = (scale, newW, newH, 3) \<and> 32 < newW * newH
         \<and> \<lceil>real 200 / real ((newW * newH - 32) * 3)\<rceil> \<le> int 3)"
proof -
  obtain scale newW newH finalBPC where p: "planCanvas 200 8 8 3 = (scale, newW, newH, finalBPC)"
    by (cases "planCanvas 200 8 8 3") auto
  have "finalBPC = 3 \<and> 32 < newW * newH \<and> \<lceil>real 200 / real ((newW * newH - 32) * 3)\<rceil> \<le> int 3"
    by (rule planCanvas_fits [OF _ _ _ _ _ p]) simp_all
  then show ?thesis using p by auto
qed

subsection \<open>The payload loop and its extraction\<close>

lemma cursor_step:
  "p mod 8 + 1 = 8 \<Longrightarrow> Suc p div 8 = p div 8 + 1 \<and> Suc p mod 8 = 0"
  "p mod 8 + 1 \<noteq> 8 \<Longrightarrow> Suc p div 8 = p div 8 \<and> Suc p mod 8 = p mod 8 + 1"
  by (simp_all add: mod_Suc div_Suc)

lemma divmod8: "p = 8 * (p div 8) + p mod (8::nat)"
  by simp

lemma cursor_end:
  assumes "p < 8 * L" "p mod 8 + 1 = 8" "L \<le> p div 8 + 1"
  shows "Suc p = 8 * L"
proof -
  have "p div 8 < L" using assms(1) by (simp add: div_less_iff_less_mult mult.commute)
  then have "L = p div 8 + 1" using assms(3) by simp
  moreover have "Suc p = 8 * (p div 8) + 8" using assms(2) divmod8 [of p] by simp
  ultimately show ?thesis by simp
qed

lemma cursor_inside1:
  assumes "p mod 8 + 1 = 8" "\<not> L \<le> p div 8 + 1"
  shows "Suc p < 8 * L"
proof -
  have "Suc p = 8 * (p div 8 + 1)" using assms(1) divmod8 [of p] by simp
  moreover have "8 * (p div 8 + 1) < 8 * L" using assms(2) by simp
  ultimately show ?thesis by simp
qed

lemma cursor_inside2:
  assumes "p < 8 * L" "p mod 8 + 1 \<noteq> 8"
  shows "Suc p < 8 * L"
proof -
  have "p div 8 < L" using assms(1) by (simp add: div_less_iff_less_mult mult.commute)
  then have "8 * (p div 8) + 8 \<le> 8 * L" by simp
  moreover have "p mod 8 < 7" using assms(2) by (simp add: less_le)
  moreover have "p = 8 * (p div 8) + p mod 8" by simp
  ultimately show ?thesis by linarith
qed

lemma bit_payload_push:
  "bit (push_bit b (drop_bit k (uint (w::byte)) AND 1)) m \<longleftrightarrow> m = b \<and> bit w k"
  by (auto simp: bit_simps bit_1_iff bit_uint_iff dest: bit_imp_le_length)

lemma bit_payload_push':
  "bit (push_bit b (drop_bit k (uint (w::byte))) AND 2 ^ b) m \<longleftrightarrow> m = b \<and> bit w k"
  using bit_payload_push [of b k w m] by (simp add: push_bit_and)

lemma gatherBits_spec:
  assumes "p \<le> 8 * length payload"
  shows "\<exists>bits'. gatherBits n b0 payload (acc, p div 8, p mod 8)
             = (bits', min (p + n) (8 * length payload) div 8, min (p + n) (8 * length payload) mod 8)
           \<and> (\<forall>m. bit bits' m = (bit acc m \<or> (b0 \<le> m \<and> m < b0 + n \<and> payloadBit payload (p + (m - b0)))))"
  using assms
proof (induction n arbitrary: b0 acc p)
  case 0
  then show ?case by (auto simp: min_def)
next
  case (Suc n)
  let ?L = "length payload"
  show ?case
  proof (cases "p < 8 * ?L")
    case True
    then have lt: "p div 8 < ?L" by auto
    define acc' where "acc' = acc OR push_bit b0 (drop_bit (p mod 8) (uint (payload ! (p div 8))) AND 1)"
    have step: "gatherBits (Suc n) b0 payload (acc, p div 8, p mod 8)
        = gatherBits n (b0 + 1) payload (acc', Suc p div 8, Suc p mod 8)"
      using lt cursor_step [of p] by (auto simp: Let_def acc'_def)
    have p1: "Suc p \<le> 8 * ?L" using True by simp
    obtain bits' where g: "gatherBits n (b0 + 1) payload (acc', Suc p div 8, Suc p mod 8)
          = (bits', min (Suc p + n) (8 * ?L) div 8, min (Suc p + n) (8 * ?L) mod 8)"
      and bb: "\<And>m. bit bits' m = (bit acc' m \<or> (b0 + 1 \<le> m \<and> m < b0 + 1 + n \<and> payloadBit payload (Suc p + (m - (b0 + 1)))))"
      using Suc.IH [OF p1, of "b0 + 1" acc'] by blast
    have pb: "payloadBit payload p = bit (payload ! (p div 8)) (p mod 8)"
      using True by (simp add: payloadBit_def)
    have "\<And>m. bit bits' m = (bit acc m \<or> (b0 \<le> m \<and> m < b0 + Suc n \<and> payloadBit payload (p + (m - b0))))"
    proof -
      fix m
      show "bit bits' m = (bit acc m \<or> (b0 \<le> m \<and> m < b0 + Suc n \<and> payloadBit payload (p + (m - b0))))"
      proof (cases "m = b0")
        case True
        then show ?thesis unfolding bb [of m] acc'_def by (simp add: bit_or_iff bit_payload_push bit_payload_push' pb)
      next
        case False
        have "b0 + 1 \<le> m \<Longrightarrow> Suc p + (m - (b0 + 1)) = p + (m - b0)" by simp
        then show ?thesis unfolding bb [of m] acc'_def using False
          by (auto simp add: bit_or_iff bit_payload_push bit_payload_push')
      qed
    qed
    then show ?thesis unfolding step g by simp
  next
    case False
    then have pe: "p = 8 * ?L" using Suc.prems by simp
    then have nl: "\<not> p div 8 < ?L" by simp
    have step: "gatherBits (Suc n) b0 payload (acc, p div 8, p mod 8)
        = gatherBits n (b0 + 1) payload (acc, p div 8, p mod 8)"
      using nl by simp
    obtain bits' where g: "gatherBits n (b0 + 1) payload (acc, p div 8, p mod 8)
          = (bits', min (p + n) (8 * ?L) div 8, min (p + n) (8 * ?L) mod 8)"
      and bb: "\<And>m. bit bits' m = (bit acc m \<or> (b0 + 1 \<le> m \<and> m < b0 + 1 + n \<and> payloadBit payload (p + (m - (b0 + 1)))))"
      using Suc.IH [OF Suc.prems, of "b0 + 1" acc] by blast
    have no: "\<And>k. \<not> payloadBit payload (p + k)" unfolding pe payloadBit_def by simp
    have m: "min (p + n) (8 * ?L) = min (p + Suc n) (8 * ?L)" unfolding pe by simp
    show ?thesis unfolding step g m using bb no by simp
  qed
qed

lemma take_bit_extend:
  "take_bit k (uint (w::byte)) OR push_bit k (of_bool (bit w k)) = take_bit (Suc k) (uint w)"
proof (rule bit_eqI)
  fix n
  show "bit (take_bit k (uint w) OR push_bit k (of_bool (bit w k))) n = bit (take_bit (Suc k) (uint w)) n"
    by (cases "n = k") (auto simp: bit_simps bit_uint_iff bit_of_bool_iff less_Suc_eq dest: bit_imp_le_length)
qed

lemma drop_bit_and_one: "drop_bit b (B::int) AND 1 = of_bool (bit B b)"
proof (rule bit_eqI)
  fix n
  show "bit (drop_bit b B AND 1) n = bit (of_bool (bit B b) :: int) n"
    by (cases "n = 0") (auto simp: bit_simps bit_1_iff bit_of_bool_iff)
qed

lemma byte_take_bit_8: "word_of_int (take_bit 8 (uint (w::byte))) = w"
proof -
  have "uint w < 2 ^ 8" using uint_bounded [of w] by simp
  then have "take_bit 8 (uint w) = uint w" by (simp add: take_bit_int_eq_self)
  then show ?thesis by simp
qed

lemma scatterBits_spec:
  assumes "p < 8 * length payload"
      and "extractedUpTo payload p X"
      and "\<forall>i<n. bit B (b0 + i) = payloadBit payload (p + i)"
  shows "extractedUpTo payload (min (p + n) (8 * length payload)) (scatterBits n b0 B (length payload) X)"
  using assms
proof (induction n arbitrary: p X b0)
  case 0
  then show ?case by (simp add: min_def)
next
  case (Suc n)
  let ?L = "length payload"
  define byte where "byte = payload ! (p div 8)"
  obtain out cur where X: "X = (out, p div 8, p mod 8, cur)"
    and lo: "length out = ?L" and pre: "\<And>i. i < p div 8 \<Longrightarrow> out ! i = payload ! i"
    and cur: "cur = take_bit (p mod 8) (uint byte)"
    using Suc.prems(1,2) unfolding extractedUpTo_def byte_def by (cases X) auto
  have b0: "bit B b0 = bit byte (p mod 8)"
    using Suc.prems(3) [rule_format, of 0] Suc.prems(1) by (simp add: payloadBit_def byte_def)
  define cur' where "cur' = cur OR push_bit (p mod 8) (drop_bit b0 B AND 1)"
  have cur': "cur' = take_bit (Suc (p mod 8)) (uint byte)"
    unfolding cur'_def cur drop_bit_and_one b0 by (rule take_bit_extend)
  have rest: "\<forall>i<n. bit B (b0 + 1 + i) = payloadBit payload (Suc p + i)"
    using Suc.prems(3) by (auto dest: spec [where x = "Suc _"])
  have lt: "p div 8 < ?L" using Suc.prems(1) by auto
  show ?case
  proof (cases "p mod 8 + 1 = 8")
    case True
    have cs: "Suc p div 8 = p div 8 + 1" "Suc p mod 8 = 0" using cursor_step(1) [OF True] by simp_all
    define out' where "out' = out[p div 8 := word_of_int cur']"
    have w: "word_of_int cur' = byte" unfolding cur' using True by (simp add: byte_take_bit_8)
    have lo': "length out' = ?L" unfolding out'_def using lo by simp
    have pre': "\<And>i. i < Suc p div 8 \<Longrightarrow> out' ! i = payload ! i"
      unfolding cs out'_def w using pre lo lt
      by (auto simp: nth_list_update byte_def less_Suc_eq)
    show ?thesis
    proof (cases "p div 8 + 1 \<ge> ?L")
      case True
      then have e: "Suc p = 8 * ?L" using Suc.prems(1) \<open>p mod 8 + 1 = 8\<close> by (intro cursor_end)
      have r: "scatterBits (Suc n) b0 B ?L X = (out', p div 8 + 1, 0, 0)"
        unfolding X using True \<open>p mod 8 + 1 = 8\<close> by (simp add: Let_def cur'_def out'_def)
      have "extractedUpTo payload (8 * ?L) (out', p div 8 + 1, 0, 0)"
        unfolding extractedUpTo_def using lo' pre' e cs by auto
      moreover have "min (p + Suc n) (8 * ?L) = 8 * ?L" using e by simp
      ultimately show ?thesis unfolding r by simp
    next
      case False
      then have p1: "Suc p < 8 * ?L" using \<open>p mod 8 + 1 = 8\<close> by (intro cursor_inside1)
      have r: "scatterBits (Suc n) b0 B ?L X = scatterBits n (b0 + 1) B ?L (out', Suc p div 8, Suc p mod 8, 0)"
        unfolding X cs using False \<open>p mod 8 + 1 = 8\<close> by (simp add: Let_def cur'_def out'_def)
      have "extractedUpTo payload (Suc p) (out', Suc p div 8, Suc p mod 8, 0)"
        unfolding extractedUpTo_def using lo' pre' p1 cs by auto
      from Suc.IH [OF p1 this rest] show ?thesis unfolding r by simp
    qed
  next
    case False
    have cs: "Suc p div 8 = p div 8" "Suc p mod 8 = p mod 8 + 1" using cursor_step(2) [OF False] by simp_all
    have p1: "Suc p < 8 * ?L" using Suc.prems(1) False by (rule cursor_inside2)
    have r: "scatterBits (Suc n) b0 B ?L X = scatterBits n (b0 + 1) B ?L (out, Suc p div 8, Suc p mod 8, cur')"
      unfolding X cs using False by (simp add: Let_def cur'_def)
    have "extractedUpTo payload (Suc p) (out, Suc p div 8, Suc p mod 8, cur')"
      unfolding extractedUpTo_def using lo pre p1 cs cur' by (auto simp: byte_def)
    from Suc.IH [OF p1 this rest] show ?thesis unfolding r by simp
  qed
qed

lemma applyOPAP_mask:
  "applyOPAP original modified bpc AND (push_bit bpc 1 - 1) = modified AND (push_bit bpc 1 - 1)"
  unfolding and_mask_mod by (auto simp: applyOPAP_def Let_def push_bit_eq_mult)

lemma applyOPAP_range:
  assumes "0 \<le> modified" "modified \<le> 255"
  shows "0 \<le> applyOPAP original modified bpc \<and> applyOPAP original modified bpc \<le> 255"
proof -
  define I :: int where "I = 2 ^ bpc"
  have "0 < I" by (simp add: I_def)
  then show ?thesis
    using assms unfolding applyOPAP_def Let_def push_bit_eq_mult mult_1_right I_def [symmetric]
    by auto
qed

lemma toUint8Clamped_uint: "0 \<le> v \<Longrightarrow> v \<le> 255 \<Longrightarrow> uint (toUint8Clamped v) = v"
  by (simp add: toUint8Clamped_def uint_word_of_int)

lemma embedded_low_bits:
  assumes b: "1 \<le> bpc" "bpc \<le> 7" and v: "0 \<le> bits" "bits < 2 ^ bpc"
  shows "uint (toUint8Clamped (applyOPAP (uint (w::byte)) (substituteBits (uint w) bpc bits) bpc))
           AND (push_bit bpc 1 - 1) = bits"
proof -
  define m where "m = substituteBits (uint w) bpc bits"
  have w: "0 \<le> uint w" "uint w \<le> 255" using uint_bounded [of w] by simp_all
  have me: "m = uint w - uint w mod 2 ^ bpc + bits"
    unfolding m_def using v by (rule substituteBits_arith)
  have mr: "0 \<le> m" "m \<le> 255"
    using substitute_range [of "uint w" bpc bits] w b v unfolding me by simp_all
  have r: "0 \<le> applyOPAP (uint w) m bpc" "applyOPAP (uint w) m bpc \<le> 255"
    using applyOPAP_range [OF mr] by simp_all
  have "uint w - uint w mod 2 ^ bpc = 2 ^ bpc * (uint w div 2 ^ bpc)"
    by (simp add: minus_mod_eq_mult_div)
  then have "m mod 2 ^ bpc = bits mod 2 ^ bpc" unfolding me by simp
  also have "\<dots> = bits" using v by simp
  finally have "m AND (push_bit bpc 1 - 1) = bits" unfolding and_mask_mod .
  then show ?thesis
    unfolding m_def [symmetric] toUint8Clamped_uint [OF r] applyOPAP_mask by simp
qed

lemma embedChannels_Cons:
  assumes "gatherBits b 0 payload (0, byteIdx, bitIdx) = (bits, byteIdx', bitIdx')"
  shows "embedChannels (c # cs) t b payload (P, byteIdx, bitIdx)
           = (if byteIdx' \<ge> length payload \<and> bitIdx' = 0
              then (P[t * 4 + c := embedValue b (px P (t * 4 + c)) bits], byteIdx', bitIdx')
              else embedChannels cs t b payload
                     (P[t * 4 + c := embedValue b (px P (t * 4 + c)) bits], byteIdx', bitIdx'))"
  using assms by (simp add: Let_def embedValue_def)

lemma embedValue_low_bits:
  assumes "1 \<le> bpc" "bpc \<le> 7" "0 \<le> bits" "bits < 2 ^ bpc"
  shows "uint (embedValue bpc w bits) AND (push_bit bpc 1 - 1) = bits"
  using embedded_low_bits [OF assms, of w] assms(2) by (simp add: embedValue_def Let_def)

lemma embedChannels_frame:
  "embedChannels cs t b payload (P, E) = (P', E') \<Longrightarrow>
     length P' = length P \<and> (\<forall>i. (\<forall>c\<in>set cs. i \<noteq> t * 4 + c) \<longrightarrow> P' ! i = P ! i)"
proof (induction cs arbitrary: P E)
  case Nil
  then show ?case by simp
next
  case (Cons c cs)
  obtain byteIdx bitIdx where E: "E = (byteIdx, bitIdx)" by (cases E) auto
  obtain bits byteIdx' bitIdx' where g: "gatherBits b 0 payload (0, byteIdx, bitIdx) = (bits, byteIdx', bitIdx')"
    by (cases "gatherBits b 0 payload (0, byteIdx, bitIdx)") auto
  define P1 where "P1 = P[t * 4 + c := embedValue b (px P (t * 4 + c)) bits]"
  note step = embedChannels_Cons [OF g, of c cs t P, folded P1_def]
  show ?case
  proof (cases "byteIdx' \<ge> length payload \<and> bitIdx' = 0")
    case True
    have "(P', E') = (P1, byteIdx', bitIdx')"
      using Cons.prems unfolding E step if_P [OF True] by simp
    then show ?thesis unfolding P1_def by auto
  next
    case False
    have "embedChannels cs t b payload (P1, byteIdx', bitIdx') = (P', E')"
      using Cons.prems unfolding E step if_not_P [OF False] by simp
    from Cons.IH [OF this] show ?thesis unfolding P1_def by auto
  qed
qed

lemma embedLoop_frame:
  "embedLoop ts b payload (P, E) = (P', E') \<Longrightarrow>
     length P' = length P
     \<and> (\<forall>i. (\<forall>t\<in>set ts. \<forall>c\<in>{0, 1, 2}. i \<noteq> t * 4 + c) \<longrightarrow> P' ! i = P ! i)"
proof (induction ts arbitrary: P E)
  case Nil
  then show ?case by simp
next
  case (Cons t ts)
  obtain byteIdx bitIdx where E: "E = (byteIdx, bitIdx)" by (cases E) auto
  show ?case
  proof (cases "byteIdx < length payload")
    case True
    obtain P1 E1 where c: "embedChannels [0, 1, 2] t b payload (P, byteIdx, bitIdx) = (P1, E1)"
      by (cases "embedChannels [0, 1, 2] t b payload (P, byteIdx, bitIdx)") auto
    have r: "embedLoop ts b payload (P1, E1) = (P', E')"
      using Cons.prems unfolding E embedLoop.simps if_P [OF True] c by simp
    have f1: "length P1 = length P" "\<And>i. (\<forall>c\<in>set [0, 1, 2]. i \<noteq> t * 4 + c) \<Longrightarrow> P1 ! i = P ! i"
      using embedChannels_frame [OF c] by auto
    have f2: "length P' = length P1" "\<And>i. (\<forall>t\<in>set ts. \<forall>c\<in>{0, 1, 2}. i \<noteq> t * 4 + c) \<Longrightarrow> P' ! i = P1 ! i"
      using Cons.IH [OF r] by auto
    show ?thesis using f1 f2 by auto
  next
    case False
    then show ?thesis using Cons.prems unfolding E by simp
  qed
qed

lemma int_bits_bounded:
  assumes "\<And>m. bit (x::int) m \<Longrightarrow> m < b"
  shows "0 \<le> x \<and> x < 2 ^ b"
proof -
  have "take_bit b x = x"
    by (rule bit_eqI) (use assms in \<open>auto simp: bit_take_bit_iff\<close>)
  then show ?thesis
    using take_bit_nonnegative [of b x] take_bit_int_less_exp [of b x] by simp
qed

lemma cursor_done:
  fixes q L :: nat
  assumes "q \<le> 8 * L"
  shows "(L \<le> q div 8 \<and> q mod 8 = 0) \<longleftrightarrow> q = 8 * L" and "L \<le> q div 8 \<longleftrightarrow> q = 8 * L"
proof -
  have d: "q = 8 * (q div 8) + q mod 8" by simp
  show "L \<le> q div 8 \<longleftrightarrow> q = 8 * L"
  proof
    assume "L \<le> q div 8"
    then have "8 * L \<le> 8 * (q div 8)" by simp
    then show "q = 8 * L" using assms d by linarith
  next
    assume "q = 8 * L"
    then show "L \<le> q div 8" by simp
  qed
  then show "(L \<le> q div 8 \<and> q mod 8 = 0) \<longleftrightarrow> q = 8 * L" by auto
qed

lemma extractChannels_Cons:
  "extractChannels (c # cs) F t b L X
     = (if fst (snd (scatterBits b 0 (uint (px F (t * 4 + c)) AND (push_bit b 1 - 1)) L X)) \<ge> L
        then scatterBits b 0 (uint (px F (t * 4 + c)) AND (push_bit b 1 - 1)) L X
        else extractChannels cs F t b L (scatterBits b 0 (uint (px F (t * 4 + c)) AND (push_bit b 1 - 1)) L X))"
  by (simp add: Let_def)

lemma pixel_roundtrip:
  assumes b: "1 \<le> b" "b \<le> 7"
      and p: "p < 8 * length payload"
      and X: "extractedUpTo payload p X"
      and cs: "distinct cs"
      and inr: "\<forall>c\<in>set cs. t * 4 + c < length P"
      and emb: "embedChannels cs t b payload (P, p div 8, p mod 8) = (P', E')"
      and F: "\<forall>c\<in>set cs. px F (t * 4 + c) = px P' (t * 4 + c)"
  shows "E' = (min (p + length cs * b) (8 * length payload) div 8, min (p + length cs * b) (8 * length payload) mod 8)
         \<and> extractedUpTo payload (min (p + length cs * b) (8 * length payload))
              (extractChannels cs F t b (length payload) X)"
  using p X cs inr emb F
proof (induction cs arbitrary: p X P)
  case Nil
  then show ?case by (simp add: min_def)
next
  case (Cons c cs)
  let ?L = "length payload"
  define p1 where "p1 = min (p + b) (8 * ?L)"
  have p1le: "p1 \<le> 8 * ?L" unfolding p1_def by simp
  obtain bits where g: "gatherBits b 0 payload (0, p div 8, p mod 8) = (bits, p1 div 8, p1 mod 8)"
    and gb: "\<And>m. bit bits m = (m < b \<and> payloadBit payload (p + m))"
    using gatherBits_spec [of p payload b 0 0] Cons.prems(1) unfolding p1_def by auto
  have bits: "0 \<le> bits" "bits < 2 ^ b"
    using int_bits_bounded [of bits b] gb by auto
  define v where "v = embedValue b (px P (t * 4 + c)) bits"
  define P1 where "P1 = P[t * 4 + c := v]"
  have lP1: "length P1 = length P" unfolding P1_def by simp
  have vP1: "px P1 (t * 4 + c) = v"
    unfolding P1_def using Cons.prems(4) by (simp add: px_def)
  have low: "uint v AND (push_bit b 1 - 1) = bits"
    unfolding v_def using b bits by (rule embedValue_low_bits)
  note estep = embedChannels_Cons [OF g, of c cs t P, folded v_def P1_def]
  define X1 where "X1 = scatterBits b 0 bits ?L X"
  have X1: "extractedUpTo payload p1 X1"
    unfolding X1_def p1_def
    by (rule scatterBits_spec [OF Cons.prems(1) Cons.prems(2)]) (simp add: gb)
  have X1idx: "fst (snd X1) = p1 div 8"
    using X1 unfolding extractedUpTo_def by (cases X1) auto
  show ?case
  proof (cases "p1 = 8 * ?L")
    case True
    have fin: "?L \<le> p1 div 8 \<and> p1 mod 8 = 0" using cursor_done(1) [OF p1le] True by simp
    have e: "(P', E') = (P1, p1 div 8, p1 mod 8)"
      using Cons.prems(5) unfolding estep if_P [OF fin] by simp
    have pf: "px F (t * 4 + c) = v" using Cons.prems(6) e vP1 by simp
    have x: "extractChannels (c # cs) F t b ?L X = X1"
      unfolding extractChannels_Cons pf low X1_def [symmetric] using X1idx fin by simp
    have "p + b \<ge> 8 * ?L" using True unfolding p1_def by (simp add: min_def split: if_splits)
    then have "p + length (c # cs) * b \<ge> 8 * ?L" by simp
    then have q: "min (p + length (c # cs) * b) (8 * ?L) = p1" using True by simp
    show ?thesis unfolding q x using e X1 by simp
  next
    case False
    then have p1lt: "p1 < 8 * ?L" using p1le by simp
    then have p1e: "p1 = p + b" unfolding p1_def by (simp add: min_def split: if_splits)
    have notdone: "\<not> (?L \<le> p1 div 8 \<and> p1 mod 8 = 0)" "\<not> ?L \<le> p1 div 8"
      using cursor_done [OF p1le] False by simp_all
    have e: "embedChannels cs t b payload (P1, p1 div 8, p1 mod 8) = (P', E')"
      using Cons.prems(5) unfolding estep if_not_P [OF notdone(1)] by simp
    have cn: "c \<notin> set cs" "distinct cs" using Cons.prems(3) by simp_all
    have fr: "length P' = length P1" "\<And>i. (\<forall>c'\<in>set cs. i \<noteq> t * 4 + c') \<Longrightarrow> P' ! i = P1 ! i"
      using embedChannels_frame [OF e] by auto
    have "\<forall>c'\<in>set cs. t * 4 + c \<noteq> t * 4 + c'" using cn(1) by auto
    then have "P' ! (t * 4 + c) = P1 ! (t * 4 + c)" "length P' = length P1"
      using fr by auto
    then have "px P' (t * 4 + c) = v" using vP1 by (auto simp add: px_def split: if_splits)
    then have pf: "px F (t * 4 + c) = v" using Cons.prems(6) by simp
    have x: "extractChannels (c # cs) F t b ?L X = extractChannels cs F t b ?L X1"
      unfolding extractChannels_Cons pf low X1_def [symmetric] using X1idx notdone(2) by simp
    have inr': "\<forall>c\<in>set cs. t * 4 + c < length P1" using Cons.prems(4) lP1 by simp
    have F': "\<forall>c\<in>set cs. px F (t * 4 + c) = px P' (t * 4 + c)" using Cons.prems(6) by simp
    have q: "min (p + length (c # cs) * b) (8 * ?L) = min (p1 + length cs * b) (8 * ?L)"
      unfolding p1e by (simp add: add.assoc)
    show ?thesis unfolding q x
      by (rule Cons.IH [OF p1lt X1 cn(2) inr' e F'])
  qed
qed

lemma loop_roundtrip:
  assumes b: "1 \<le> b" "b \<le> 7"
      and p: "p \<le> 8 * length payload"
      and X: "extractedUpTo payload p X"
      and ts: "distinct ts"
      and inr: "\<forall>t\<in>set ts. t * 4 + 2 < length P"
      and emb: "embedLoop ts b payload (P, p div 8, p mod 8) = (F, E')"
  shows "extractedUpTo payload (min (p + length ts * (3 * b)) (8 * length payload))
           (extractLoop ts F b (length payload) X)"
  using p X ts inr emb
proof (induction ts arbitrary: p X P)
  case Nil
  then show ?case by (simp add: min_def)
next
  case (Cons t ts)
  let ?L = "length payload"
  have Xidx: "fst (snd X) = p div 8"
    using Cons.prems(2) unfolding extractedUpTo_def by (cases X) auto
  show ?case
  proof (cases "p = 8 * ?L")
    case True
    then have "\<not> fst (snd X) < ?L" using Xidx by simp
    then have "extractLoop (t # ts) F b ?L X = X" by simp
    moreover have "min (p + length (t # ts) * (3 * b)) (8 * ?L) = p" using True by simp
    ultimately show ?thesis using Cons.prems(2) by simp
  next
    case False
    then have plt: "p < 8 * ?L" using Cons.prems(1) by simp
    then have lt: "p div 8 < ?L" by auto
    obtain P1 E1 where c: "embedChannels [0, 1, 2] t b payload (P, p div 8, p mod 8) = (P1, E1)"
      by (cases "embedChannels [0, 1, 2] t b payload (P, p div 8, p mod 8)") auto
    have r: "embedLoop ts b payload (P1, E1) = (F, E')"
      using Cons.prems(5) unfolding embedLoop.simps if_P [OF lt] c by simp
    have lP1: "length P1 = length P" using embedChannels_frame [OF c] by simp
    have tn: "t \<notin> set ts" "distinct ts" using Cons.prems(3) by simp_all
    have fr: "length F = length P1"
      "\<And>i. (\<forall>t'\<in>set ts. \<forall>c\<in>{0, 1, 2}. i \<noteq> t' * 4 + c) \<Longrightarrow> F ! i = P1 ! i"
      using embedLoop_frame [OF r] by auto
    have agree: "\<forall>c\<in>set [0, 1, 2]. px F (t * 4 + c) = px P1 (t * 4 + c)"
    proof
      fix c :: nat assume "c \<in> set [0, 1, 2]"
      then have c3: "c < 3" by auto
      have "\<forall>t'\<in>set ts. \<forall>c'\<in>{0, 1, 2}. t * 4 + c \<noteq> t' * 4 + c'"
      proof (intro ballI)
        fix t' c' :: nat assume "t' \<in> set ts" "c' \<in> {0, 1, 2}"
        then have "t' \<noteq> t" "c' < 3" using tn(1) by auto
        then show "t * 4 + c \<noteq> t' * 4 + c'" using c3 by presburger
      qed
      then have "F ! (t * 4 + c) = P1 ! (t * 4 + c)" by (rule fr(2))
      then show "px F (t * 4 + c) = px P1 (t * 4 + c)" using fr(1) by (simp add: px_def)
    qed
    have inr3: "\<forall>c\<in>set [0, 1, 2]. t * 4 + c < length P" using Cons.prems(4) by auto
    define p1 where "p1 = min (p + length [0, 1, 2::nat] * b) (8 * ?L)"
    have px: "E1 = (p1 div 8, p1 mod 8)"
      and X1: "extractedUpTo payload p1 (extractChannels [0, 1, 2] F t b ?L X)"
      using pixel_roundtrip [OF b plt Cons.prems(2) _ inr3 c agree] unfolding p1_def by simp_all
    have p1le: "p1 \<le> 8 * ?L" unfolding p1_def by simp
    have inr': "\<forall>t\<in>set ts. t * 4 + 2 < length P1" using Cons.prems(4) lP1 by simp
    have r': "embedLoop ts b payload (P1, p1 div 8, p1 mod 8) = (F, E')" using r px by simp
    have x: "extractLoop (t # ts) F b ?L X = extractLoop ts F b ?L (extractChannels [0, 1, 2] F t b ?L X)"
      unfolding extractLoop.simps using Xidx lt by simp
    have q: "min (p + length (t # ts) * (3 * b)) (8 * ?L) = min (p1 + length ts * (3 * b)) (8 * ?L)"
      unfolding p1_def by (simp add: min_def)
    show ?thesis unfolding q x
      by (rule Cons.IH [OF p1le X1 tn(2) inr' r'])
  qed
qed

lemma stegoExtract_embedLoop:
  assumes b: "1 \<le> b" "b \<le> 7"
      and ts: "distinct ts"
      and inr: "\<forall>t\<in>set ts. t * 4 + 2 < length P"
      and cap: "8 * length payload \<le> length ts * (3 * b)"
      and emb: "embedLoop ts b payload (P, 0, 0) = (F, E')"
  shows "stegoExtract F ts b (length payload) = payload"
proof -
  let ?L = "length payload"
  let ?X0 = "(replicate ?L (0::byte), 0::nat, 0::nat, 0::int)"
  have X0: "extractedUpTo payload 0 ?X0" by (simp add: extractedUpTo_def)
  have emb0: "embedLoop ts b payload (P, 0 div 8, 0 mod 8) = (F, E')" using emb by simp
  have "extractedUpTo payload (min (0 + length ts * (3 * b)) (8 * ?L)) (extractLoop ts F b ?L ?X0)"
    by (rule loop_roundtrip [OF b _ X0 ts inr emb0]) simp
  moreover have "min (0 + length ts * (3 * b)) (8 * ?L) = 8 * ?L" using cap by simp
  ultimately have e: "extractedUpTo payload (8 * ?L) (extractLoop ts F b ?L ?X0)" by simp
  obtain out i1 i2 cur where r: "extractLoop ts F b ?L ?X0 = (out, i1, i2, cur)"
    by (cases "extractLoop ts F b ?L ?X0") auto
  have "length out = ?L" "\<And>i. i < ?L \<Longrightarrow> out ! i = payload ! i"
    using e unfolding r extractedUpTo_def by auto
  then have "out = payload" by (intro nth_equalityI) simp_all
  then show ?thesis unfolding stegoExtract_def r by simp
qed

lemma linearChannel_inj: "linearChannel a = linearChannel b \<Longrightarrow> a = b"
proof -
  assume e: "linearChannel a = linearChannel b"
  have ma: "a mod 3 < 3" and mb: "b mod 3 < 3" by simp_all
  have "(a div 3) * 4 + a mod 3 = (b div 3) * 4 + b mod 3" using e by (simp add: linearChannel_def)
  moreover have "\<And>x y x' y' :: nat. x * 4 + y = x' * 4 + y' \<Longrightarrow> y < 3 \<Longrightarrow> y' < 3 \<Longrightarrow> x = x' \<and> y = y'"
    by presburger
  ultimately have "a div 3 = b div 3 \<and> a mod 3 = b mod 3" using ma mb by blast
  then show "a = b" by (metis div_mult_mod_eq)
qed

lemma linearChannel_cursor: "c < 3 \<Longrightarrow> linearChannel (3 * p + c) = p * 4 + c"
  by (simp add: linearChannel_def)

lemma header_bit_value:
  assumes "h = 0 \<or> h = 1"
  shows "bit (toUint8Clamped ((uint (w::byte) AND NOT 1) OR h)) 0 = (h = 1)"
proof -
  define x where "x = (uint w AND NOT 1) OR h"
  have h: "0 \<le> h" "h < 2 ^ 1" using assms by auto
  have s: "x = substituteBits (uint w) 1 h" unfolding x_def substituteBits_def by simp
  have xe: "x = uint w - uint w mod 2 ^ 1 + h" unfolding s using h by (rule substituteBits_arith)
  have w: "0 \<le> uint w" "uint w \<le> 255" using uint_bounded [of w] by simp_all
  have r: "0 \<le> x" "x \<le> 255"
    using substitute_range [of "uint w" 1 h] w h unfolding xe by simp_all
  have "uint (toUint8Clamped x) = x" using r by (rule toUint8Clamped_uint)
  then have "bit (toUint8Clamped x) 0 = bit x 0" by (metis bit_uint_iff len_gt_0)
  also have "\<dots> = odd x" by (simp add: bit_0)
  also have "\<dots> = (h = 1)" using assms unfolding xe by auto
  finally show ?thesis unfolding x_def .
qed

lemma writeHeaderBits_spec:
  assumes "c < 3" and "\<forall>h\<in>set hs. h = 0 \<or> h = 1"
  shows "length (writeHeaderBits hs c p P) = length P
         \<and> (\<forall>k<length hs. linearChannel (3 * p + c + k) < length P \<longrightarrow>
               bit (writeHeaderBits hs c p P ! linearChannel (3 * p + c + k)) 0 = (hs ! k = 1))
         \<and> (\<forall>i. (\<forall>k<length hs. i \<noteq> linearChannel (3 * p + c + k)) \<longrightarrow> writeHeaderBits hs c p P ! i = P ! i)"
  using assms
proof (induction hs arbitrary: c p P)
  case Nil
  then show ?case by simp
next
  case (Cons h hs)
  define v where "v = toUint8Clamped ((uint (px P (p * 4 + c)) AND NOT 1) OR h)"
  define P1 where "P1 = P[p * 4 + c := v]"
  define c' where "c' = (if c + 1 > 2 then 0 else c + 1)"
  define p' where "p' = (if c + 1 > 2 then p + 1 else p)"
  have step: "writeHeaderBits (h # hs) c p P = writeHeaderBits hs c' p' P1"
    by (simp add: Let_def v_def P1_def c'_def p'_def)
  have c3: "c' < 3" unfolding c'_def using Cons.prems(1) by simp
  have pos: "3 * p' + c' = 3 * p + c + 1" unfolding c'_def p'_def using Cons.prems(1) by simp
  have hv: "bit v 0 = (h = 1)" unfolding v_def using Cons.prems(2) by (intro header_bit_value) simp
  have hs: "\<forall>h\<in>set hs. h = 0 \<or> h = 1" using Cons.prems(2) by simp
  let ?R = "writeHeaderBits hs c' p' P1"
  have ih: "length ?R = length P1"
    "\<And>k. k < length hs \<Longrightarrow> linearChannel (3 * p + c + 1 + k) < length P1 \<Longrightarrow>
        bit (?R ! linearChannel (3 * p + c + 1 + k)) 0 = (hs ! k = 1)"
    "\<And>i. (\<forall>k<length hs. i \<noteq> linearChannel (3 * p + c + 1 + k)) \<Longrightarrow> ?R ! i = P1 ! i"
    using Cons.IH [OF c3 hs, of p' P1] unfolding pos by auto
  have lP1: "length P1 = length P" unfolding P1_def by simp
  have idx: "linearChannel (3 * p + c) = p * 4 + c" using Cons.prems(1) by (rule linearChannel_cursor)
  have a: "length ?R = length P" using ih(1) lP1 by simp
  have b: "\<forall>k<length (h # hs). linearChannel (3 * p + c + k) < length P \<longrightarrow>
               bit (?R ! linearChannel (3 * p + c + k)) 0 = ((h # hs) ! k = 1)"
  proof (intro allI impI)
    fix k assume k: "k < length (h # hs)" and r: "linearChannel (3 * p + c + k) < length P"
    show "bit (?R ! linearChannel (3 * p + c + k)) 0 = ((h # hs) ! k = 1)"
    proof (cases k)
      case 0
      have "\<forall>k'<length hs. linearChannel (3 * p + c) \<noteq> linearChannel (3 * p + c + 1 + k')"
        using linearChannel_inj by fastforce
      then have "?R ! linearChannel (3 * p + c) = P1 ! linearChannel (3 * p + c)" by (rule ih(3))
      also have "\<dots> = v" unfolding idx P1_def using r 0 idx by simp
      finally show ?thesis using 0 hv by simp
    next
      case (Suc k')
      then show ?thesis using ih(2) [of k'] k r lP1 by simp
    qed
  qed
  have d: "\<forall>i. (\<forall>k<length (h # hs). i \<noteq> linearChannel (3 * p + c + k)) \<longrightarrow> ?R ! i = P ! i"
  proof (intro allI impI)
    fix i assume n: "\<forall>k<length (h # hs). i \<noteq> linearChannel (3 * p + c + k)"
    have "i \<noteq> p * 4 + c" using n [rule_format, of 0] idx by simp
    moreover have "\<forall>k<length hs. i \<noteq> linearChannel (3 * p + c + 1 + k)"
      using n by (auto dest: spec [where x = "Suc _"])
    ultimately show "?R ! i = P ! i" using ih(3) [of i] unfolding P1_def by simp
  qed
  show ?case unfolding step using a b d by blast
qed

lemma bitsOf_bools: "map (\<lambda>h. h = 1) (bitsOf n v) = map (bit v) [0..<n]"
  by (simp add: bitsOf_def drop_bit_and_one)

lemma bitsOf_01: "\<forall>h\<in>set (bitsOf n v). h = 0 \<or> h = 1"
  by (auto simp: bitsOf_def drop_bit_and_one)

lemma length_bitsOf: "length (bitsOf n v) = n"
  by (simp add: bitsOf_def)

lemma bit_uint_byte: "bit (uint (w::byte)) n = bit w n"
  by (auto simp: bit_uint_iff dest: bit_imp_le_length)

lemma headerBits_bools:
  "map (\<lambda>h. h = 1) (headerBits L b)
     = byteBits MAGIC_SNIH @ map (bit (int L)) [0..<32] @ map (bit (int b)) [0..<8]"
proof -
  have "\<And>bs. map (\<lambda>h. h = 1) (concat (map (\<lambda>byte. bitsOf 8 (uint byte)) bs)) = byteBits bs"
  proof -
    fix bs :: "byte list"
    show "map (\<lambda>h. h = 1) (concat (map (\<lambda>byte. bitsOf 8 (uint byte)) bs)) = byteBits bs"
      by (induction bs) (simp_all add: byteBits_def bitsOf_bools bit_uint_byte)
  qed
  then show ?thesis unfolding headerBits_def by (simp add: bitsOf_bools)
qed

lemma headerBits_01: "\<forall>h\<in>set (headerBits L b). h = 0 \<or> h = 1"
  using bitsOf_01 by (auto simp: headerBits_def)

lemma length_headerBits: "length (headerBits L b) = 72"
  by (simp add: headerBits_def length_bitsOf MAGIC_SNIH_def)

lemma byteBits_setUint32:
  assumes "L < 4294967296"
  shows "byteBits (setUint32 L) = map (bit (int L)) [0..<32]"
proof (rule nth_equalityI)
  show "length (byteBits (setUint32 L)) = length (map (bit (int L)) [0..<32])"
    by (simp add: length_byteBits length_setUint32)
next
  fix k assume "k < length (byteBits (setUint32 L))"
  then have k: "k < 32" by (simp add: length_byteBits length_setUint32)
  then have m: "k div 8 < 4" by auto
  have lm: "int L mod 4294967296 = int L" using assms by simp
  have "byteBits (setUint32 L) ! k = bit (setUint32 L ! (k div 8)) (k mod 8)"
    using k by (intro byteBits_nth) (simp add: length_setUint32)
  also have "setUint32 L ! (k div 8) = word_of_int (int L div 256 ^ (k div 8))"
    unfolding setUint32_def lm using m by simp
  also have "bit (word_of_int (int L div 256 ^ (k div 8)) :: byte) (k mod 8)
      = bit (int L div 256 ^ (k div 8)) (k mod 8)"
    by (simp add: bit_word_of_int_iff)
  also have "(256::int) ^ (k div 8) = 2 ^ (8 * (k div 8))"
    by (simp add: power_mult)
  also have "bit (int L div 2 ^ (8 * (k div 8))) (k mod 8) = bit (int L) (8 * (k div 8) + k mod 8)"
    by (simp add: bit_iff_odd div_exp_eq flip: drop_bit_eq_div)
  also have "8 * (k div 8) + k mod 8 = k" by simp
  finally show "byteBits (setUint32 L) ! k = map (bit (int L)) [0..<32] ! k"
    using k by simp
qed

lemma byteBits_inj:
  assumes "length bs = length bs'" "byteBits bs = byteBits bs'"
  shows "bs = bs'"
proof (rule nth_equalityI)
  show "length bs = length bs'" by (rule assms(1))
next
  fix m assume m: "m < length bs"
  show "bs ! m = bs' ! m"
  proof (rule bit_eqI)
    fix i
    show "bit (bs ! m) i = bit (bs' ! m) i"
    proof (cases "i < 8")
      case True
      then have k: "8 * m + i < 8 * length bs" using m by simp
      have "(8 * m + i) div 8 = m" "(8 * m + i) mod 8 = i" using True by simp_all
      then show ?thesis
        using byteBits_nth [OF k] byteBits_nth [of "8 * m + i" bs'] k assms by simp
    next
      case False
      then show ?thesis by (auto dest: bit_imp_le_length)
    qed
  qed
qed

lemma header_readback:
  assumes F: "map (linearLsb F) [0..<72] = map (\<lambda>h. h = 1) (headerBits L b)"
      and L: "L < 4294967296" and b: "b < 256"
  shows "readBytes 4 F (0, 0) = (MAGIC_SNIH, 10, 2)"
    and "readBytes 4 F (10, 2) = (setUint32 L, 21, 1)"
    and "readByte F (21, 1) = (int b, 24, 0)"
proof -
  have all: "map (linearLsb F) [0..<72]
      = byteBits MAGIC_SNIH @ map (bit (int L)) [0..<32] @ map (bit (int b)) [0..<8]"
    unfolding F by (rule headerBits_bools)
  have lm: "length (byteBits MAGIC_SNIH) = 32" by (simp add: length_byteBits MAGIC_SNIH_def)
  have "take 32 (map (linearLsb F) [0..<72]) = byteBits MAGIC_SNIH"
    unfolding all using lm by simp
  then have m1: "map (linearLsb F) [0..<32] = byteBits MAGIC_SNIH"
    by (simp add: take_map)
  have "take 32 (drop 32 (map (linearLsb F) [0..<72])) = map (bit (int L)) [0..<32]"
    unfolding all using lm by simp
  then have m2: "map (linearLsb F) [32..<64] = map (bit (int L)) [0..<32]"
    by (simp add: take_map drop_map)
  have "drop 64 (map (linearLsb F) [0..<72]) = map (bit (int b)) [0..<8]"
    unfolding all using lm by simp
  then have m3: "map (linearLsb F) [64..<72] = map (bit (int b)) [0..<8]"
    by (simp add: drop_map)
  obtain bs where r1: "readBytes 4 F (0, 0) = (bs, 10, 2)" and l1: "length bs = 4"
    and b1: "byteBits bs = map (linearLsb F) [0..<32]"
    using readBytes_linear [of 4 F 0] by auto
  have "byteBits bs = byteBits MAGIC_SNIH" unfolding b1 m1 ..
  moreover have "length bs = length MAGIC_SNIH" unfolding l1 by (simp add: MAGIC_SNIH_def)
  ultimately have "bs = MAGIC_SNIH" by (intro byteBits_inj)
  then show "readBytes 4 F (0, 0) = (MAGIC_SNIH, 10, 2)" using r1 by simp
  obtain bs2 where r2: "readBytes 4 F (10, 2) = (bs2, 21, 1)" and l2: "length bs2 = 4"
    and b2: "byteBits bs2 = map (linearLsb F) [32..<64]"
    using readBytes_linear [of 4 F 32] by auto
  have "byteBits bs2 = byteBits (setUint32 L)" unfolding b2 m2 byteBits_setUint32 [OF L] ..
  moreover have "length bs2 = length (setUint32 L)" unfolding l2 length_setUint32 ..
  ultimately have "bs2 = setUint32 L" by (intro byteBits_inj)
  then show "readBytes 4 F (10, 2) = (setUint32 L, 21, 1)" using r2 by simp
  obtain val where r3: "readByte F (21, 1) = (val, 24, 0)"
    and b3: "\<And>i. bit val i = (i < 8 \<and> linearLsb F (64 + i))"
    using readByte_spec [of 1 F 21] by auto
  have nth3: "\<And>i. i < 8 \<Longrightarrow> linearLsb F (64 + i) = bit (int b) i"
  proof -
    fix i :: nat assume i: "i < 8"
    have "map (linearLsb F) [64..<72] ! i = map (bit (int b)) [0..<8] ! i" unfolding m3 ..
    moreover have "map (linearLsb F) [64..<72] ! i = linearLsb F (64 + i)"
      using nth_map_upt [of i 72 64 "linearLsb F"] i by simp
    moreover have "map (bit (int b)) [0..<8] ! i = bit (int b) i"
      using nth_map_upt [of i 8 0 "bit (int b)"] i by simp
    ultimately show "linearLsb F (64 + i) = bit (int b) i" by simp
  qed
  have "val = int b"
  proof (rule bit_eqI)
    fix i
    have "int b < 2 ^ 8" using b by simp
    then have "take_bit 8 (int b) = int b" by (simp add: take_bit_int_eq_self)
    then have "bit (int b) i \<Longrightarrow> i < 8" by (metis bit_take_bit_iff)
    then show "bit val i = bit (int b) i" using b3 [of i] nth3 [of i] by auto
  qed
  then show "readByte F (21, 1) = (int b, 24, 0)" using r3 by simp
qed

lemma length_forceOpaque: "length (forceOpaque P) = length P"
proof -
  have "\<And>ks P. length (fold (\<lambda>k p. p[4 * k + 3 := 255]) ks P) = length (P :: byte list)"
  proof -
    fix ks :: "nat list" and P :: "byte list"
    show "length (fold (\<lambda>k p. p[4 * k + 3 := 255]) ks P) = length P"
      by (induction ks arbitrary: P) simp_all
  qed
  then show ?thesis unfolding forceOpaque_def by simp
qed

subsection \<open>The stego round trip\<close>

lemma planScale_ge1: "1 \<le> planScale T W H b"
  by (simp add: planScale_def Let_def)

lemma cover_area_bound:
  assumes pc: "planCanvas T W H b = (scale, newW, newH, finalBPC)"
      and n: "newW * newH \<le> 4294967296"
  shows "W * H < 2 ^ 53"
proof -
  define s where "s = planScale T W H b"
  have res: "newW = nat \<lceil>fl (real W * s)\<rceil>" "newH = nat \<lceil>fl (real H * s)\<rceil>"
    using pc by (auto simp add: planCanvas_def Let_def s_def)
  have "ulp1 ^ 2 * (1 ^ 2 * (real W * real H)) \<le> real (nat \<lceil>fl (real W * s)\<rceil> * nat \<lceil>fl (real H * s)\<rceil>)"
    by (rule scaled_area) (simp_all add: s_def planScale_ge1)
  then have a: "ulp1 ^ 2 * real (W * H) \<le> real (newW * newH)"
    unfolding res by simp
  have "real (newW * newH) \<le> 4294967296" using n by (metis of_nat_le_iff of_nat_numeral)
  then have b: "ulp1 ^ 2 * real (W * H) \<le> 4294967296" using a by linarith
  have "1 / 2 \<le> ulp1" by (simp add: ulp1_def)
  then have "(1 / 2) ^ 2 \<le> ulp1 ^ 2" by (rule power_mono) simp
  then have "(1 / 2) ^ 2 * real (W * H) \<le> ulp1 ^ 2 * real (W * H)"
    by (rule mult_right_mono) simp
  then have "real (W * H) \<le> 4 * 4294967296" using b by (simp add: power2_eq_square)
  then have "real (W * H) < real (2 ^ 53)" by simp
  then show ?thesis by (simp only: of_nat_less_iff)
qed

lemma linearChannel_header: "k < 72 \<Longrightarrow> linearChannel k < 128"
proof -
  assume "k < 72"
  then have "k div 3 \<le> 23" by simp
  moreover have "k mod 3 < 3" by simp
  ultimately show ?thesis unfolding linearChannel_def by linarith
qed

lemma stego_pixels:
  assumes lenP: "length P0 = 4 * N" and N: "32 < N"
      and P1: "P1 = writeHeaderBits (headerBits L b) 0 0 (forceOpaque P0)"
      and sh: "set sh = {32..<N}"
      and emb: "embedLoop sh b payload (P1, E) = (F, E')"
  shows "length P1 = 4 * N"
    and "length F = 4 * N"
    and "map (linearLsb F) [0..<72] = map (\<lambda>h. h = 1) (headerBits L b)"
proof -
  note w = writeHeaderBits_spec [of 0 "headerBits L b" 0 "forceOpaque P0", OF _ headerBits_01,
      unfolded P1 [symmetric] length_headerBits length_forceOpaque lenP, simplified]
  show l1: "length P1 = 4 * N" using w by simp
  note f = embedLoop_frame [OF emb]
  show lF: "length F = 4 * N" using f l1 by simp
  show "map (linearLsb F) [0..<72] = map (\<lambda>h. h = 1) (headerBits L b)"
  proof (rule nth_equalityI)
    show "length (map (linearLsb F) [0..<72]) = length (map (\<lambda>h. h = 1) (headerBits L b))"
      by (simp add: length_headerBits)
  next
    fix k assume "k < length (map (linearLsb F) [0..<72])"
    then have k: "k < 72" by simp
    have c: "linearChannel k < 128" using k by (rule linearChannel_header)
    then have c4: "linearChannel k < 4 * N" using N by simp
    have "\<forall>t\<in>set sh. \<forall>c\<in>{0, 1, 2}. linearChannel k \<noteq> t * 4 + c"
      using c unfolding sh by auto
    then have "F ! linearChannel k = P1 ! linearChannel k" using f by blast
    moreover have "bit (P1 ! linearChannel k) 0 = (headerBits L b ! k = 1)"
      using w k c4 by simp
    ultimately have "linearLsb F k = (headerBits L b ! k = 1)"
      unfolding linearLsb_def px_def using c4 lF by simp
    then show "map (linearLsb F) [0..<72] ! k = map (\<lambda>h. h = 1) (headerBits L b) ! k"
      using k by (simp add: length_headerBits del: upt_Suc)
  qed
qed

lemma stego_not_noise:
  assumes hdr: "map (linearLsb F) [0..<72] = map (\<lambda>h. h = 1) (headerBits L b)"
  shows "\<not> magicMatches [px F 0, px F 1, px F 2, px F 4] MAGIC_SNIC"
    and "\<not> magicMatches [px F 0, px F 1, px F 2, px F 4] MAGIC_SNIZ"
proof -
  have "map (linearLsb F) [0..<72] ! 1 = (byteBits MAGIC_SNIH @ map (bit (int L)) [0..<32] @ map (bit (int b)) [0..<8]) ! 1"
    unfolding hdr headerBits_bools ..
  moreover have "map (linearLsb F) [0..<72] ! 1 = linearLsb F 1"
    using nth_map_upt [of 1 72 0 "linearLsb F"] by simp
  moreover have "(byteBits MAGIC_SNIH @ map (bit (int L)) [0..<32] @ map (bit (int b)) [0..<8]) ! 1
                   = byteBits MAGIC_SNIH ! 1"
    by (simp add: nth_append length_byteBits MAGIC_SNIH_def)
  moreover have "byteBits MAGIC_SNIH ! 1 = bit (MAGIC_SNIH ! 0) 1"
    using byteBits_nth [of 1 MAGIC_SNIH] by (simp add: MAGIC_SNIH_def)
  moreover have "bit (MAGIC_SNIH ! 0) 1" by (simp add: MAGIC_SNIH_def)
  ultimately have "linearLsb F 1" by simp
  then have g: "bit (px F 1) 0" by (simp add: linearLsb_def linearChannel_def)
  have "\<not> bit (0x4E :: byte) 0" by simp
  then have "px F 1 \<noteq> 0x4E" using g by metis
  then show "\<not> magicMatches [px F 0, px F 1, px F 2, px F 4] MAGIC_SNIC"
    and "\<not> magicMatches [px F 0, px F 1, px F 2, px F 4] MAGIC_SNIZ"
    by (simp_all add: magicMatches_unfold MAGIC_SNIC_def MAGIC_SNIZ_def)
qed

lemma stego_decode:
  assumes b: "1 \<le> b" "b \<le> 7"
      and N: "32 < N" "N = newW * newH" "N \<le> 4294967296"
      and L: "L = length payload" "L < 4294967296"
      and cap: "8 * L \<le> (N - 32) * (3 * b)"
      and lenP: "length P0 = 4 * N"
      and P1: "P1 = writeHeaderBits (headerBits L b) 0 0 (forceOpaque P0)"
      and g: "getShuffledIndices N RESERVED_HEADER_PIXELS = Inr sh"
      and emb: "embedLoop sh b payload (P1, 0, 0) = (F, E')"
  shows "decodeImageToFile decompress \<lparr>imgWidth = newW, imgHeight = newH, imgData = F\<rparr>
           = parsePayload decompress payload"
proof -
  obtain xs where xs: "getShuffledIndices N 32 = Inr xs" "length xs = N - 32" "distinct xs"
      "set xs = {32..<N}"
    using getShuffledIndices_perm [of 32 N] N by auto
  have sh: "length sh = N - 32" "distinct sh" "set sh = {32..<N}"
    using xs g by (simp_all add: RESERVED_HEADER_PIXELS_def)
  note sp = stego_pixels [OF lenP N(1) P1 sh(3) emb]
  have inr: "\<forall>t\<in>set sh. t * 4 + 2 < length P1" unfolding sh(3) sp(1) by auto
  have cap': "8 * length payload \<le> length sh * (3 * b)" using cap unfolding sh(1) L(1) .
  have extr: "stegoExtract F sh b L = payload"
    unfolding L(1) using b sh(2) inr cap' emb by (rule stegoExtract_embedLoop)
  have b256: "b < 256" using b by simp
  note rb = header_readback [OF sp(3) L(2) b256]
  note probe = stego_not_noise [OF sp(3)]
  have mm: "magicMatches MAGIC_SNIH MAGIC_SNIH"
    by (simp add: magicMatches_unfold MAGIC_SNIH_def)
  have "(N - 32) * (3 * b) \<le> N * 3 * b" by simp
  then have "L \<le> N * 3 * b" using cap by linarith
  then have "int L \<le> int (N * 3) * int b" by (metis of_nat_le_iff of_nat_mult)
  then have fits: "\<not> int L > int (N * 3) * int b" by simp
  have rng: "\<not> (int b < 1 \<or> int b > 8)" using b by simp
  have dsi: "decodeStegoImage decompress F newW newH 10 2 = parsePayload decompress payload"
    unfolding decodeStegoImage_def rb Let_def prod.case getUint32_setUint32 [OF L(2)]
      if_not_P [OF rng] N(2) [symmetric] if_not_P [OF fits] g sum.case nat_int extr ..
  show ?thesis
    unfolding decodeImageToFile_def Let_def Image.simps using probe rb(1) mm dsi
    by simp
qed

lemma planCanvas_scenario: "planCanvas 200 8 8 3 = (1.25, 10, 10, 3)"
proof -
  have b: "(200 / 96 :: real) - (200 / 96) / 2 ^ 53 \<le> fl (200 / 96)"
      "fl (200 / 96) \<le> (200 / 96 :: real) + (200 / 96) / 2 ^ 53"
    using fl_bounds [of "200 / 96"] by simp_all
  have "\<lceil>fl (200 / 96)\<rceil> = 3"
    by (rule ceiling_unique) (use b in simp_all)
  then have mr: "minRequiredBPC 200 8 8 = 3"
    by (simp add: minRequiredBPC_def Let_def RESERVED_HEADER_PIXELS_def)
  have u: "(200 / 288 :: real) - (200 / 288) / 2 ^ 53 \<le> fl (200 / 288)"
    using fl_bounds(1) [of "200 / 288"] by simp
  have "(0.5 :: real) < 200 / 288 - (200 / 288) / 2 ^ 53" by simp
  then have ut: "fl (200 / 288) > 0.5" using u by linarith
  have s: "planScale 200 8 8 3 = 1.25"
    using ut by (simp add: planScale_def Let_def mr RESERVED_HEADER_PIXELS_def)
  have f10: "fl 10 = 10" using fl_of_int [of 10] by simp
  have "nat \<lceil>fl (real 8 * 1.25)\<rceil> = 10" using f10 by simp
  then show ?thesis unfolding planCanvas_def Let_def s by simp
qed

lemma stego_decode_encode:
  assumes len: "length (createPayload file) < 4294967296"
      and m: "length (TextEncoder_encode (fileType_in file)) \<le> 255"
      and n: "length (TextEncoder_encode (fileName_in file)) \<le> 255"
      and wh: "8 \<le> coverWidth cover" "8 \<le> coverHeight cover"
      and tb: "1 \<le> targetBPC" "targetBPC \<le> 7"
      and canvas: "\<forall>smooth w h. length (drawImage cover smooth w h) = w * h * 4"
      and pc: "planCanvas (length (createPayload file) * 8) (coverWidth cover) (coverHeight cover) targetBPC
                 = (scale, newW, newH, finalBPC)"
      and area: "newW * newH \<le> 4294967296"
  shows "\<exists>img. hideDataInImage file cover targetBPC = Inr img
           \<and> decodeImageToFile decompress img
               = Inr \<lparr>blob = fileBytes file,
                      fileName = TextDecoder_decode (TextEncoder_encode (fileName_in file)),
                      fileType = TextDecoder_decode (TextEncoder_encode (fileType_in file))\<rparr>"
proof -
  define payload where "payload = createPayload file"
  define L where "L = length payload"
  define W where "W = coverWidth cover"
  define H where "H = coverHeight cover"
  define N where "N = newW * newH"
  have L: "L = length payload" "L < 4294967296" using len by (simp_all add: L_def payload_def)
  have pc': "planCanvas (L * 8) W H targetBPC = (scale, newW, newH, finalBPC)"
    using pc by (simp add: L_def payload_def W_def H_def)
  have "8 * 8 \<le> W * H" unfolding W_def H_def using wh by (rule mult_le_mono)
  then have wh32: "32 < W * H" by simp
  have wh53: "W * H < 2 ^ 53" using pc' area by (rule cover_area_bound)
  have T: "L * 8 < 2 ^ 35" using L(2) by simp
  have cap: "finalBPC = targetBPC" "W \<le> newW" "H \<le> newH"
      "int (L * 8) \<le> 3 * int targetBPC * (int (newW * newH) - 32)"
    using planCanvas_capacity [OF wh32 wh53 tb T pc'] by simp_all
  have "W * H \<le> newW * newH" using cap(2,3) by (rule mult_le_mono)
  then have N: "32 < N" "N = newW * newH" "N \<le> 4294967296"
    using wh32 area by (simp_all add: N_def)
  have "int (8 * L) \<le> int ((N - 32) * (3 * targetBPC))"
    using cap(4) N(1) unfolding N_def [symmetric] by (simp add: of_nat_diff algebra_simps)
  then have cap8: "8 * L \<le> (N - 32) * (3 * targetBPC)" by (simp only: of_nat_le_iff)
  obtain sh where g: "getShuffledIndices N RESERVED_HEADER_PIXELS = Inr sh"
    using getShuffledIndices_perm [of 32 N] N by (auto simp: RESERVED_HEADER_PIXELS_def)
  define P0 where "P0 = drawImage cover (scale > 1) newW newH"
  define P1 where "P1 = writeHeaderBits (headerBits L targetBPC) 0 0 (forceOpaque P0)"
  have lenP: "length P0 = 4 * N" unfolding P0_def N_def using canvas by simp
  obtain F E where emb: "embedLoop sh targetBPC payload (P1, 0, 0) = (F, E)"
    by (cases "embedLoop sh targetBPC payload (P1, 0, 0)") auto
  have hide: "hideDataInImage file cover targetBPC
                = Inr \<lparr>imgWidth = newW, imgHeight = newH, imgData = F\<rparr>"
    unfolding hideDataInImage_def Let_def pc' [unfolded W_def H_def] prod.case cap(1)
      payload_def [symmetric] L_def [symmetric] P0_def [symmetric] P1_def [symmetric]
      N_def [symmetric] g sum.case emb by (simp add: case_prod_beta)
  have dec: "decodeImageToFile decompress \<lparr>imgWidth = newW, imgHeight = newH, imgData = F\<rparr>
               = parsePayload decompress payload"
    using tb N L cap8 lenP P1_def g emb by (rule stego_decode)
  have d: "length (fileBytes file) < 4294967296" using len by (simp add: length_createPayload)
  have "parsePayload decompress (createPayload file @ [])
          = Inr \<lparr>blob = fileBytes file,
                 fileName = TextDecoder_decode (TextEncoder_encode (fileName_in file)),
                 fileType = TextDecoder_decode (TextEncoder_encode (fileType_in file))\<rparr>"
    using d m n by (rule parsePayload_createPayload)
  then show ?thesis using hide dec by (simp add: payload_def)
qed

text \<open>
  C1. Let the framed payload be shorter than \<open>2 ^ 32\<close> bytes (its length is stored in a
  32-bit field), the type and the name encode to at most 255 bytes each, be strings of scalar
  values and not begin with U+FEFF, the cover be at least 8 by 8, the target density between
  1 and 7, the canvas return four bytes per pixel at every size, and the planned canvas have at
  most \<open>2 ^ 32\<close> pixels (the shuffled indices live in a \<^verbatim>\<open>Uint32Array\<close>). Then
  hideDataInImage returns an image, and decodeImageToFile on that image returns exactly the
  original data, name and type.
\<close>

theorem stego_roundtrip:
  assumes len: "length (createPayload file) < 4294967296"
      and m: "length (TextEncoder_encode (fileType_in file)) \<le> 255"
      and n: "length (TextEncoder_encode (fileName_in file)) \<le> 255"
      and wm: "scalarValues (fileType_in file)" "\<not> startsWithBOM (fileType_in file)"
      and wn: "scalarValues (fileName_in file)" "\<not> startsWithBOM (fileName_in file)"
      and wh: "8 \<le> coverWidth cover" "8 \<le> coverHeight cover"
      and tb: "1 \<le> targetBPC" "targetBPC \<le> 7"
      and canvas: "\<forall>smooth w h. length (drawImage cover smooth w h) = w * h * 4"
      and pc: "planCanvas (length (createPayload file) * 8) (coverWidth cover) (coverHeight cover) targetBPC
                 = (scale, newW, newH, finalBPC)"
      and area: "newW * newH \<le> 4294967296"
  shows "\<exists>img. hideDataInImage file cover targetBPC = Inr img
           \<and> decodeImageToFile decompress img
               = Inr \<lparr>blob = fileBytes file, fileName = fileName_in file, fileType = fileType_in file\<rparr>"
  using stego_decode_encode [OF len m n wh tb canvas pc area, of decompress]
  unfolding TextDecoder_TextEncoder [OF wm] TextDecoder_TextEncoder [OF wn] .

theorem stego_roundtrip_witness:
  "length (createPayload \<lparr>fileBytes = [1, 2, 3], fileType_in = codePoints ''audio/mpeg'', fileName_in = codePoints ''ab''\<rparr>) < 4294967296
   \<and> length (TextEncoder_encode (codePoints ''audio/mpeg'')) \<le> 255
   \<and> length (TextEncoder_encode (codePoints ''ab'')) \<le> 255
   \<and> scalarValues (codePoints ''audio/mpeg'') \<and> \<not> startsWithBOM (codePoints ''audio/mpeg'')
   \<and> scalarValues (codePoints ''ab'') \<and> \<not> startsWithBOM (codePoints ''ab'')
   \<and> 8 \<le> coverWidth (blankCover 8 8) \<and> 8 \<le> coverHeight (blankCover 8 8)
   \<and> (1::nat) \<le> 3 \<and> (3::nat) \<le> 7
   \<and> (\<forall>smooth w h. length (drawImage (blankCover 8 8) smooth w h) = w * h * 4)
   \<and> planCanvas (length (createPayload \<lparr>fileBytes = [1, 2, 3], fileType_in = codePoints ''audio/mpeg'', fileName_in = codePoints ''ab''\<rparr>) * 8)
         (coverWidth (blankCover 8 8)) (coverHeight (blankCover 8 8)) 3 = (1.25, 10, 10, 3)
   \<and> (10::nat) * 10 \<le> 4294967296
   \<and> (\<exists>img. hideDataInImage \<lparr>fileBytes = [1, 2, 3], fileType_in = codePoints ''audio/mpeg'', fileName_in = codePoints ''ab''\<rparr> (blankCover 8 8) 3 = Inr img
         \<and> decodeImageToFile Some img
             = Inr \<lparr>blob = [1, 2, 3], fileName = codePoints ''ab'', fileType = codePoints ''audio/mpeg''\<rparr>)"
proof -
  define input where "input = \<lparr>fileBytes = [1, 2, 3], fileType_in = codePoints ''audio/mpeg'', fileName_in = codePoints ''ab''\<rparr>"
  have f: "fileBytes input = [1, 2, 3]" "fileType_in input = codePoints ''audio/mpeg''"
      "fileName_in input = codePoints ''ab''"
    by (simp_all add: input_def)
  have l: "length (createPayload input) = 25"
    by (simp add: length_createPayload f codePoints_def TextEncoder_encode_ascii)
  have h1: "length (createPayload input) < 4294967296" by (simp add: l)
  have h2: "length (TextEncoder_encode (fileType_in input)) \<le> 255"
      "length (TextEncoder_encode (fileName_in input)) \<le> 255"
    by (simp_all add: f codePoints_def TextEncoder_encode_ascii)
  have h3: "scalarValues (fileType_in input)" "\<not> startsWithBOM (fileType_in input)"
      "scalarValues (fileName_in input)" "\<not> startsWithBOM (fileName_in input)"
    by (simp_all add: f codePoints_def scalarValues_def isSurrogate_def startsWithBOM_def)
  have h4: "8 \<le> coverWidth (blankCover 8 8)" "8 \<le> coverHeight (blankCover 8 8)"
    by (simp_all add: blankCover_def)
  have h5: "(1::nat) \<le> 3" "(3::nat) \<le> 7" by simp_all
  have h6: "\<forall>smooth w h. length (drawImage (blankCover 8 8) smooth w h) = w * h * 4"
    by (simp add: blankCover_def)
  have h7: "planCanvas (length (createPayload input) * 8)
         (coverWidth (blankCover 8 8)) (coverHeight (blankCover 8 8)) 3 = (1.25, 10, 10, 3)"
    using planCanvas_scenario by (simp add: l blankCover_def)
  have h8: "(10::nat) * 10 \<le> 4294967296" by simp
  have "\<exists>img. hideDataInImage input (blankCover 8 8) 3 = Inr img
         \<and> decodeImageToFile Some img
             = Inr \<lparr>blob = fileBytes input, fileName = fileName_in input,
                     fileType = fileType_in input\<rparr>"
    using h1 h2 h3 h4 h5 h6 h7 h8 by (rule stego_roundtrip)
  then show ?thesis
    using h1 h2 h3 h4 h5 h6 h7 h8 unfolding f unfolding input_def by blast
qed

text \<open>
  The name \<open>U+FEFF a\<close> encodes to four bytes, inside the range of the claim, and the
  decoder drops its first code point: the stego codec returns the name \<open>a\<close>.
\<close>

theorem stego_roundtrip_bom:
  "length (TextEncoder_encode (codePoints ''audio/mpeg'')) \<le> 255
   \<and> length (TextEncoder_encode [0xFEFF, 0x61]) \<le> 255
   \<and> (\<exists>img. hideDataInImage \<lparr>fileBytes = [7], fileType_in = codePoints ''audio/mpeg'', fileName_in = [0xFEFF, 0x61]\<rparr> (blankCover 8 8) 3 = Inr img
         \<and> decodeImageToFile Some img
             = Inr \<lparr>blob = [7], fileName = [0x61], fileType = codePoints ''audio/mpeg''\<rparr>)"
proof -
  define input where "input = \<lparr>fileBytes = [7], fileType_in = codePoints ''audio/mpeg'', fileName_in = [0xFEFF, 0x61]\<rparr>"
  have f: "fileBytes input = [7]" "fileType_in input = codePoints ''audio/mpeg''"
      "fileName_in input = [0xFEFF, 0x61]"
    by (simp_all add: input_def)
  have l: "length (createPayload input) = 25"
    by (simp add: length_createPayload f codePoints_def TextEncoder_encode_ascii TextEncoder_encode_bom)
  have h1: "length (createPayload input) < 4294967296" by (simp add: l)
  have h2: "length (TextEncoder_encode (fileType_in input)) \<le> 255"
      "length (TextEncoder_encode (fileName_in input)) \<le> 255"
    by (simp_all add: f codePoints_def TextEncoder_encode_ascii TextEncoder_encode_bom)
  have h4: "8 \<le> coverWidth (blankCover 8 8)" "8 \<le> coverHeight (blankCover 8 8)"
    by (simp_all add: blankCover_def)
  have h5: "(1::nat) \<le> 3" "(3::nat) \<le> 7" by simp_all
  have h6: "\<forall>smooth w h. length (drawImage (blankCover 8 8) smooth w h) = w * h * 4"
    by (simp add: blankCover_def)
  have h7: "planCanvas (length (createPayload input) * 8)
         (coverWidth (blankCover 8 8)) (coverHeight (blankCover 8 8)) 3 = (1.25, 10, 10, 3)"
    using planCanvas_scenario by (simp add: l blankCover_def)
  have h8: "(10::nat) * 10 \<le> 4294967296" by simp
  have t: "TextDecoder_decode (TextEncoder_encode (codePoints ''audio/mpeg'')) = codePoints ''audio/mpeg''"
    by (rule TextDecoder_TextEncoder)
       (simp_all add: codePoints_def scalarValues_def isSurrogate_def startsWithBOM_def)
  have "\<exists>img. hideDataInImage input (blankCover 8 8) 3 = Inr img
         \<and> decodeImageToFile Some img
             = Inr \<lparr>blob = fileBytes input,
                    fileName = TextDecoder_decode (TextEncoder_encode (fileName_in input)),
                    fileType = TextDecoder_decode (TextEncoder_encode (fileType_in input))\<rparr>"
    using h1 h2 h4 h5 h6 h7 h8 by (rule stego_decode_encode)
  then have "\<exists>img. hideDataInImage input (blankCover 8 8) 3 = Inr img
         \<and> decodeImageToFile Some img
             = Inr \<lparr>blob = [7], fileName = [0x61], fileType = codePoints ''audio/mpeg''\<rparr>"
    unfolding f t TextDecoder_decode_bom .
  then show ?thesis using h2 unfolding f unfolding input_def by blast
qed

end
